theory Spec2Isabelle
  imports Main "HOL-Library.AList"
begin

section \<open>Python values used by the scheduler\<close>

text \<open>
  The program is a single Python module. Its dictionaries are modelled as association
  lists in insertion order (Python dictionaries keep insertion order and have distinct
  keys), its integers as \<open>int\<close>, its strings as \<open>string\<close>, and every exception it
  can raise as a value of the type \<open>error\<close>.
\<close>

datatype error =
    KeyErrorDay int
  | KeyErrorDoctor string
  | ValueError
  | TypeError

type_synonym ('k, 'v) dict = "('k \<times> 'v) list"

definition bind_err :: "error + 'a \<Rightarrow> ('a \<Rightarrow> error + 'b) \<Rightarrow> error + 'b" where
  "bind_err r f = (case r of Inl e \<Rightarrow> Inl e | Inr x \<Rightarrow> f x)"

definition wf_dict :: "('k, 'v) dict \<Rightarrow> bool" where
  "wf_dict d = distinct (map fst d)"

section \<open>String formatting of integers\<close>

definition digit_char :: "nat \<Rightarrow> char" where
  "digit_char n = ''0123456789'' ! (n mod 10)"

fun str_nat :: "nat \<Rightarrow> string" where
  "str_nat n = (if n < 10 then [digit_char n] else str_nat (n div 10) @ [digit_char n])"

declare str_nat.simps [simp del]

text \<open>\<open>str_int i\<close> is what the f-string field \<open>{i}\<close> prints for a Python integer.\<close>

definition str_int :: "int \<Rightarrow> string" where
  "str_int i = (if i < 0 then CHR ''-'' # str_nat (nat (- i)) else str_nat (nat i))"

text \<open>\<open>fmt_02d i\<close> is the f-string field \<open>{i:02d}\<close>: zero padding to width two.\<close>

definition fmt_02d :: "int \<Rightarrow> string" where
  "fmt_02d i = (let s = str_int i in if length s < 2 then CHR ''0'' # s else s)"

section \<open>Holiday table\<close>

definition public_holidays :: "(int, string list) dict" where
  "public_holidays =
     [(1, [''01-01'', ''01-06'']),
      (4, [''04-01'']),
      (5, [''05-01'', ''05-08'']),
      (7, [''07-05'']),
      (8, [''08-29'']),
      (9, [''09-01'', ''09-15'']),
      (11, [''11-01'', ''11-17'']),
      (12, [''12-24'', ''12-25'', ''12-26''])]"

definition holiday_string :: "int \<Rightarrow> int \<Rightarrow> string \<Rightarrow> string" where
  "holiday_string year month day = str_int year @ ''-'' @ fmt_02d month @ ''-'' @ day"

definition get_public_holidays :: "int \<Rightarrow> string list" where
  "get_public_holidays year =
     concat (map (\<lambda>(month, days). map (holiday_string year month) days) public_holidays)"

section \<open>Calendar arithmetic\<close>

text \<open>
  The calendar functions of the standard library (proleptic Gregorian calendar):
  leap years, month lengths, the ordinal of a date and the weekday with Monday as 0.
\<close>

definition is_leap :: "int \<Rightarrow> bool" where
  "is_leap y = (y mod 4 = 0 \<and> (y mod 100 \<noteq> 0 \<or> y mod 400 = 0))"

definition days_in_month :: "int \<Rightarrow> int \<Rightarrow> int" where
  "days_in_month y m =
     (if m = 2 then (if is_leap y then 29 else 28)
      else if m = 4 \<or> m = 6 \<or> m = 9 \<or> m = 11 then 30
      else 31)"

definition days_before_year :: "int \<Rightarrow> int" where
  "days_before_year y =
     (let p = y - 1 in p * 365 + p div 4 - p div 100 + p div 400)"

definition days_before_month :: "int \<Rightarrow> int \<Rightarrow> int" where
  "days_before_month y m = sum_list (map (days_in_month y) [1..m - 1])"

definition ymd2ord :: "int \<Rightarrow> int \<Rightarrow> int \<Rightarrow> int" where
  "ymd2ord y m d = days_before_year y + days_before_month y m + d"

definition weekday :: "int \<Rightarrow> int \<Rightarrow> int \<Rightarrow> int" where
  "weekday y m d = (ymd2ord y m d + 6) mod 7"

section \<open>Parsing a date with the format \<open>%Y-%m-%d\<close>\<close>

definition is_digit :: "char \<Rightarrow> bool" where
  "is_digit c = (c \<in> set ''0123456789'')"

definition digit_val :: "char \<Rightarrow> int" where
  "digit_val c = int (of_char c) - 48"

definition int_of_digits :: "string \<Rightarrow> int" where
  "int_of_digits s = foldl (\<lambda>acc c. acc * 10 + digit_val c) 0 s"

fun split_on :: "char \<Rightarrow> string \<Rightarrow> string list" where
  "split_on sep [] = [[]]"
| "split_on sep (c # cs) =
     (if c = sep then [] # split_on sep cs
      else (case split_on sep cs of
              [] \<Rightarrow> [[c]]
            | w # ws \<Rightarrow> (c # w) # ws))"

text \<open>
  The three directives accept: \<open>%Y\<close> exactly four digits; \<open>%m\<close> one of
  \<open>1[0-2]\<close>, \<open>0[1-9]\<close>, \<open>[1-9]\<close>; \<open>%d\<close> one of \<open>3[01]\<close>, \<open>[12]\<close> digit,
  \<open>0[1-9]\<close>, \<open>[1-9]\<close>, space \<open>[1-9]\<close>. The date is then built, which rejects
  year 0 and a day beyond the month's length. Every rejection is a ValueError.
\<close>

definition year_field :: "string \<Rightarrow> bool" where
  "year_field s = (length s = 4 \<and> list_all is_digit s)"

definition month_field :: "string \<Rightarrow> bool" where
  "month_field s =
     ((length s = 1 \<or> length s = 2) \<and> list_all is_digit s
      \<and> 1 \<le> int_of_digits s \<and> int_of_digits s \<le> 12)"

definition day_field :: "string \<Rightarrow> bool" where
  "day_field s =
     (((length s = 1 \<or> length s = 2) \<and> list_all is_digit s
       \<and> 1 \<le> int_of_digits s \<and> int_of_digits s \<le> 31)
      \<or> (length s = 2 \<and> hd s = CHR '' '' \<and> is_digit (s ! 1) \<and> s ! 1 \<noteq> CHR ''0''))"

definition day_value :: "string \<Rightarrow> int" where
  "day_value s = int_of_digits (filter is_digit s)"

definition strptime_ymd :: "string \<Rightarrow> error + (int \<times> int \<times> int)" where
  "strptime_ymd s =
     (case split_on CHR ''-'' s of
        [ys, ms, ds] \<Rightarrow>
          if year_field ys \<and> month_field ms \<and> day_field ds then
            (let y = int_of_digits ys; m = int_of_digits ms; d = day_value ds
             in if 1 \<le> y \<and> d \<le> days_in_month y m then Inr (y, m, d) else Inl ValueError)
          else Inl ValueError
      | _ \<Rightarrow> Inl ValueError)"

definition is_weekend_or_holiday :: "string \<Rightarrow> string list \<Rightarrow> error + bool" where
  "is_weekend_or_holiday date_str holidays =
     bind_err (strptime_ymd date_str) (\<lambda>(y, m, d).
       let is_weekend = (weekday y m d \<ge> 5);
           is_holiday = (date_str \<in> set holidays)
       in Inr (is_weekend \<or> is_holiday))"

text \<open>
  The date format \<open>YYYY-MM-DD\<close>: four digits, a hyphen, two digits, a hyphen, two
  digits.
\<close>

definition is_ymd_format :: "string \<Rightarrow> bool" where
  "is_ymd_format s =
     (length s = 10 \<and> list_all is_digit (take 4 s) \<and> s ! 4 = CHR ''-''
      \<and> list_all is_digit (take 2 (drop 5 s)) \<and> s ! 7 = CHR ''-''
      \<and> list_all is_digit (drop 8 s))"

section \<open>Roster and demand map\<close>

text \<open>
  A doctor's details are a dictionary with the keys \<open>excluded_days\<close>, \<open>wanted_days\<close>
  and \<open>num_shifts\<close>. The finalizer reads \<open>num_shifts\<close> with the default infinity, and
  the form stores infinity for "no limit": both are \<open>None\<close> here.
\<close>

record doctor =
  excluded_days :: "int list"
  wanted_days :: "int list"
  num_shifts :: "int option"

type_synonym roster = "(string, doctor) dict"
type_synonym demand = "(int, string list) dict"
type_synonym resolution = "(int, string) dict"
type_synonym final = "(int, string option) dict"
type_synonym counter = "(string, int) dict"

text \<open>
  The last day of the month, as the time-series library computes it from the first of
  the month. An invalid month is rejected. The library also rejects years outside its
  representable range; the model returns the calendar value for every year, so it
  succeeds wherever the library does.
\<close>

definition month_end_day :: "int \<Rightarrow> int \<Rightarrow> error + int" where
  "month_end_day year month =
     (if 1 \<le> month \<and> month \<le> 12 then Inr (days_in_month year month) else Inl ValueError)"

definition validate_days :: "int list \<Rightarrow> int \<Rightarrow> int list" where
  "validate_days days num_days = filter (\<lambda>day. day \<le> num_days) days"

text \<open>\<open>schedule[day].append(doctor)\<close>: a missing day raises KeyError.\<close>

definition append_doctor :: "int \<Rightarrow> string \<Rightarrow> demand \<Rightarrow> error + demand" where
  "append_doctor day doctor schedule =
     (case map_of schedule day of
        None \<Rightarrow> Inl (KeyErrorDay day)
      | Some l \<Rightarrow> Inr (AList.update day (l @ [doctor]) schedule))"

fun assign_wanted :: "string \<Rightarrow> doctor \<Rightarrow> int list \<Rightarrow> demand \<Rightarrow> error + demand" where
  "assign_wanted doctor details [] schedule = Inr schedule"
| "assign_wanted doctor details (day # days) schedule =
     (if day \<notin> set (excluded_days details) then
        (case append_doctor day doctor schedule of
           Inl e \<Rightarrow> Inl e
         | Inr schedule' \<Rightarrow> assign_wanted doctor details days schedule')
      else assign_wanted doctor details days schedule)"

fun assign_doctors :: "roster \<Rightarrow> int \<Rightarrow> demand \<Rightarrow> error + demand" where
  "assign_doctors [] num_days schedule = Inr schedule"
| "assign_doctors ((doctor, details) # rest) num_days schedule =
     (case assign_wanted doctor details
             (validate_days (wanted_days details) num_days) schedule of
        Inl e \<Rightarrow> Inl e
      | Inr schedule' \<Rightarrow> assign_doctors rest num_days schedule')"

definition generate_initial_schedule :: "roster \<Rightarrow> int \<Rightarrow> int \<Rightarrow> error + demand" where
  "generate_initial_schedule doctors month year =
     bind_err (month_end_day year month) (\<lambda>num_days.
       assign_doctors doctors num_days (map (\<lambda>day. (day, [])) [1..num_days]))"

section \<open>Conflicts\<close>

definition identify_conflicts :: "demand \<Rightarrow> demand" where
  "identify_conflicts schedule = filter (\<lambda>(day, doctors). length doctors > 1) schedule"

section \<open>Finalizing the schedule\<close>

text \<open>\<open>doctor_shift_count[doctor] += 1\<close>: a missing doctor raises KeyError.\<close>

definition increment :: "string \<Rightarrow> counter \<Rightarrow> error + counter" where
  "increment doctor cnt =
     (case map_of cnt doctor of
        None \<Rightarrow> Inl (KeyErrorDoctor doctor)
      | Some c \<Rightarrow> Inr (AList.update doctor (c + 1) cnt))"

text \<open>
  First loop: resolved conflicts and single candidates. The source stores the doctor in
  \<open>final_schedule\<close> and then increments the counter; when the increment raises, the
  call is left and the schedule built so far is lost, so the model tests the increment
  first. The second loop is modelled in the same way.
\<close>

fun seed_pass :: "demand \<Rightarrow> resolution \<Rightarrow> final \<times> counter \<Rightarrow> error + final \<times> counter" where
  "seed_pass [] resolved_schedule st = Inr st"
| "seed_pass ((day, assigned_doctors) # rest) resolved_schedule (fs, cnt) =
     (case map_of resolved_schedule day of
        Some d \<Rightarrow>
          (case increment d cnt of
             Inl e \<Rightarrow> Inl e
           | Inr cnt' \<Rightarrow> seed_pass rest resolved_schedule (AList.update day (Some d) fs, cnt'))
      | None \<Rightarrow>
          (case assigned_doctors of
             [d] \<Rightarrow>
               (case increment d cnt of
                  Inl e \<Rightarrow> Inl e
                | Inr cnt' \<Rightarrow>
                    seed_pass rest resolved_schedule (AList.update day (Some d) fs, cnt'))
           | _ \<Rightarrow> seed_pass rest resolved_schedule (AList.update day None fs, cnt)))"

text \<open>\<open>final_schedule[day]\<close>: a missing day raises KeyError.\<close>

definition lookup_day :: "final \<Rightarrow> int \<Rightarrow> error + string option" where
  "lookup_day fs day =
     (case map_of fs day of None \<Rightarrow> Inl (KeyErrorDay day) | Some v \<Rightarrow> Inr v)"

text \<open>\<open>num_shifts > count\<close>, with infinity for no limit.\<close>

fun shifts_left :: "int option \<Rightarrow> int \<Rightarrow> bool" where
  "shifts_left None count = True"
| "shifts_left (Some m) count = (m > count)"

text \<open>
  The condition of the list comprehension of the second loop, for one item of the shift
  counter. The conjuncts are evaluated left to right and stop at the first false one, so
  a neighbouring day is only read when the conjuncts before it hold.
\<close>

definition not_on_previous_day :: "final \<Rightarrow> int \<Rightarrow> string \<Rightarrow> error + bool" where
  "not_on_previous_day fs day doctor =
     (if day = 1 then Inr True
      else bind_err (lookup_day fs (day - 1)) (\<lambda>v. Inr (v \<noteq> Some doctor)))"

definition not_on_next_day :: "final \<Rightarrow> int \<Rightarrow> string \<Rightarrow> error + bool" where
  "not_on_next_day fs day doctor =
     (if day = int (length fs) then Inr True
      else bind_err (lookup_day fs (day + 1)) (\<lambda>v. Inr (v \<noteq> Some doctor)))"

definition available :: "roster \<Rightarrow> final \<Rightarrow> int \<Rightarrow> string \<times> int \<Rightarrow> error + bool" where
  "available doctors fs day = (\<lambda>(doctor, count).
     case map_of doctors doctor of
       None \<Rightarrow> Inl (KeyErrorDoctor doctor)
     | Some details \<Rightarrow>
         if \<not> shifts_left (num_shifts details) count then Inr False
         else if day \<in> set (excluded_days details) then Inr False
         else
           bind_err (not_on_previous_day fs day doctor) (\<lambda>previous_ok.
             if \<not> previous_ok then Inr False
             else not_on_next_day fs day doctor))"

fun available_doctors :: "roster \<Rightarrow> final \<Rightarrow> int \<Rightarrow> counter \<Rightarrow> error + string list" where
  "available_doctors doctors fs day [] = Inr []"
| "available_doctors doctors fs day ((doctor, count) # rest) =
     (case available doctors fs day (doctor, count) of
        Inl e \<Rightarrow> Inl e
      | Inr b \<Rightarrow>
          (case available_doctors doctors fs day rest of
             Inl e \<Rightarrow> Inl e
           | Inr ds \<Rightarrow> Inr (if b then doctor # ds else ds)))"

text \<open>
  \<open>random.choice\<close> returns some element of a non-empty list. The random source is the
  parameter \<open>rnd\<close>: the draw made for a day, reduced modulo the length of the list. Each
  day draws at most once, so every sequence of random outcomes is some \<open>rnd\<close>.
\<close>

definition choice :: "(int \<Rightarrow> nat) \<Rightarrow> int \<Rightarrow> string list \<Rightarrow> string" where
  "choice rnd day xs = xs ! (rnd day mod length xs)"

definition fill_day ::
  "roster \<Rightarrow> (int \<Rightarrow> nat) \<Rightarrow> int \<Rightarrow> final \<times> counter \<Rightarrow> error + final \<times> counter" where
  "fill_day doctors rnd day = (\<lambda>(fs, cnt).
     bind_err (lookup_day fs day) (\<lambda>cur.
       case cur of
         Some d \<Rightarrow> Inr (fs, cnt)
       | None \<Rightarrow>
           bind_err (available_doctors doctors fs day cnt) (\<lambda>av.
             if av = [] then Inr (fs, cnt)
             else
               (let selected_doctor = choice rnd day av
                in bind_err (increment selected_doctor cnt) (\<lambda>cnt'.
                     Inr (AList.update day (Some selected_doctor) fs, cnt'))))))"

fun fill_pass ::
  "roster \<Rightarrow> (int \<Rightarrow> nat) \<Rightarrow> int list \<Rightarrow> final \<times> counter \<Rightarrow> error + final \<times> counter" where
  "fill_pass doctors rnd [] st = Inr st"
| "fill_pass doctors rnd (day # days) st =
     (case fill_day doctors rnd day st of
        Inl e \<Rightarrow> Inl e
      | Inr st' \<Rightarrow> fill_pass doctors rnd days st')"

text \<open>Third loop: a day equal to the day before it is unassigned.\<close>

definition cleanup_day :: "int \<Rightarrow> final \<Rightarrow> error + final" where
  "cleanup_day day fs =
     bind_err (lookup_day fs day) (\<lambda>cur.
       bind_err (lookup_day fs (day - 1)) (\<lambda>prev.
         if cur = prev then Inr (AList.update day None fs) else Inr fs))"

fun cleanup_pass :: "int list \<Rightarrow> final \<Rightarrow> error + final" where
  "cleanup_pass [] fs = Inr fs"
| "cleanup_pass (day # days) fs =
     (case cleanup_day day fs of
        Inl e \<Rightarrow> Inl e
      | Inr fs' \<Rightarrow> cleanup_pass days fs')"

definition initial_count :: "roster \<Rightarrow> counter" where
  "initial_count doctors = map (\<lambda>(doctor, details). (doctor, 0)) doctors"

definition seeded :: "demand \<Rightarrow> resolution \<Rightarrow> roster \<Rightarrow> error + final \<times> counter" where
  "seeded schedule resolved_schedule doctors =
     seed_pass schedule resolved_schedule ([], initial_count doctors)"

definition filled ::
  "demand \<Rightarrow> resolution \<Rightarrow> roster \<Rightarrow> (int \<Rightarrow> nat) \<Rightarrow> error + final \<times> counter" where
  "filled schedule resolved_schedule doctors rnd =
     bind_err (seeded schedule resolved_schedule doctors) (\<lambda>(fs, cnt).
       fill_pass doctors rnd [1..int (length fs)] (fs, cnt))"

definition finalize_schedule ::
  "demand \<Rightarrow> resolution \<Rightarrow> roster \<Rightarrow> (int \<Rightarrow> nat) \<Rightarrow> error + final" where
  "finalize_schedule schedule resolved_schedule doctors rnd =
     bind_err (filled schedule resolved_schedule doctors rnd) (\<lambda>(fs, cnt).
       cleanup_pass [2..int (length fs) - 1] fs)"

text \<open>A deterministic random source: every draw is the first element.\<close>

definition always_first :: "int \<Rightarrow> nat" where
  "always_first day = 0"

text \<open>
  The value the first loop stores for a day: the resolved doctor, else the single
  candidate, else nothing.
\<close>

definition seed_value :: "resolution \<Rightarrow> int \<Rightarrow> string list \<Rightarrow> string option" where
  "seed_value resolved_schedule day assigned_doctors =
     (case map_of resolved_schedule day of
        Some d \<Rightarrow> Some d
      | None \<Rightarrow> (case assigned_doctors of [d] \<Rightarrow> Some d | _ \<Rightarrow> None))"

text \<open>The days of a schedule are exactly 1 to its length.\<close>

definition covers_days :: "(int, 'v) dict \<Rightarrow> bool" where
  "covers_days d = (fst ` set d = {1..int (length d)})"

text \<open>The number of days a schedule assigns to a doctor.\<close>

definition assigned_days :: "string \<Rightarrow> final \<Rightarrow> nat" where
  "assigned_days doctor fs = length (filter (\<lambda>(day, v). v = Some doctor) fs)"

section \<open>The two-doctor example\<close>

text \<open>
  Doctors A and B both want day 5, exclude nothing and have no limit; in a month of
  \<open>n\<close> days the demand map has both of them on day 5 and nobody on the other days.
\<close>

definition doctors_A_B :: roster where
  "doctors_A_B =
     [(''A'', \<lparr>excluded_days = [], wanted_days = [5], num_shifts = None\<rparr>),
      (''B'', \<lparr>excluded_days = [], wanted_days = [5], num_shifts = None\<rparr>)]"

definition demand_day_5 :: "int \<Rightarrow> demand" where
  "demand_day_5 n = map (\<lambda>day. (day, if day = 5 then [''A'', ''B''] else [])) [1..n]"

section \<open>Invariant of the demand builder\<close>

text \<open>No list of the demand map holds a doctor of the roster on a day the doctor excludes.\<close>

definition respects_excluded :: "roster \<Rightarrow> demand \<Rightarrow> bool" where
  "respects_excluded doctors s =
     (\<forall>(day, l) \<in> set s. \<forall>d \<in> set l. \<forall>details.
        map_of doctors d = Some details \<longrightarrow> day \<notin> set (excluded_days details))"

section \<open>Objects, references and the store\<close>

text \<open>
  Dictionaries and lists are mutable objects that the callers of the scheduler keep and
  pass by reference. To state which objects a function changes, the objects live in a
  store: a list of objects, addressed by position. Allocation appends a new object, and
  an assignment to an item of a dictionary replaces the object at the dictionary's
  address. Strings, integers and \<open>None\<close> are immutable and are stored by value. An
  address that does not hold an object of the expected kind is a TypeError.
\<close>

type_synonym addr = nat

datatype obj =
    NameList "string list"
  | DayList "int list"
  | DemandDict "(int, addr) dict"
  | ResolutionDict "(int, string) dict"
  | DetailsDict addr addr "int option"
  | RosterDict "(string, addr) dict"
  | FinalDict final
  | CounterDict counter

type_synonym store = "obj list"

definition deref :: "store \<Rightarrow> addr \<Rightarrow> obj option" where
  "deref h a = (if a < length h then Some (h ! a) else None)"

definition get_names :: "store \<Rightarrow> addr \<Rightarrow> error + string list" where
  "get_names h a = (case deref h a of Some (NameList l) \<Rightarrow> Inr l | _ \<Rightarrow> Inl TypeError)"

definition get_days :: "store \<Rightarrow> addr \<Rightarrow> error + int list" where
  "get_days h a = (case deref h a of Some (DayList l) \<Rightarrow> Inr l | _ \<Rightarrow> Inl TypeError)"

definition get_demand :: "store \<Rightarrow> addr \<Rightarrow> error + (int, addr) dict" where
  "get_demand h a = (case deref h a of Some (DemandDict d) \<Rightarrow> Inr d | _ \<Rightarrow> Inl TypeError)"

definition get_resolution :: "store \<Rightarrow> addr \<Rightarrow> error + resolution" where
  "get_resolution h a =
     (case deref h a of Some (ResolutionDict d) \<Rightarrow> Inr d | _ \<Rightarrow> Inl TypeError)"

definition get_details :: "store \<Rightarrow> addr \<Rightarrow> error + addr \<times> addr \<times> int option" where
  "get_details h a =
     (case deref h a of Some (DetailsDict e w n) \<Rightarrow> Inr (e, w, n) | _ \<Rightarrow> Inl TypeError)"

definition get_roster :: "store \<Rightarrow> addr \<Rightarrow> error + (string, addr) dict" where
  "get_roster h a = (case deref h a of Some (RosterDict d) \<Rightarrow> Inr d | _ \<Rightarrow> Inl TypeError)"

definition get_final :: "store \<Rightarrow> addr \<Rightarrow> error + final" where
  "get_final h a = (case deref h a of Some (FinalDict d) \<Rightarrow> Inr d | _ \<Rightarrow> Inl TypeError)"

definition get_counter :: "store \<Rightarrow> addr \<Rightarrow> error + counter" where
  "get_counter h a = (case deref h a of Some (CounterDict d) \<Rightarrow> Inr d | _ \<Rightarrow> Inl TypeError)"

text \<open>
  A computation on the store returns a value or raises, and leaves a store behind in
  both cases.
\<close>

type_synonym 'a comp = "store \<Rightarrow> (error + 'a) \<times> store"

definition return_st :: "'a \<Rightarrow> 'a comp" where
  "return_st x = (\<lambda>h. (Inr x, h))"

definition bind_st :: "'a comp \<Rightarrow> ('a \<Rightarrow> 'b comp) \<Rightarrow> 'b comp" where
  "bind_st m f = (\<lambda>h. case m h of (Inl e, h') \<Rightarrow> (Inl e, h') | (Inr x, h') \<Rightarrow> f x h')"

definition read_st :: "(store \<Rightarrow> error + 'a) \<Rightarrow> 'a comp" where
  "read_st g = (\<lambda>h. (g h, h))"

definition lift_st :: "error + 'a \<Rightarrow> 'a comp" where
  "lift_st r = (\<lambda>h. (r, h))"

definition write_st :: "addr \<Rightarrow> obj \<Rightarrow> unit comp" where
  "write_st a x = (\<lambda>h. (Inr (), h[a := x]))"

definition alloc_st :: "obj \<Rightarrow> addr comp" where
  "alloc_st x = (\<lambda>h. (Inr (length h), h @ [x]))"

subsection \<open>Reading whole values out of the store\<close>

fun map_err :: "('a \<Rightarrow> error + 'b) \<Rightarrow> 'a list \<Rightarrow> error + 'b list" where
  "map_err f [] = Inr []"
| "map_err f (x # xs) =
     (case f x of
        Inl e \<Rightarrow> Inl e
      | Inr y \<Rightarrow> (case map_err f xs of Inl e \<Rightarrow> Inl e | Inr ys \<Rightarrow> Inr (y # ys)))"

definition read_demand :: "store \<Rightarrow> addr \<Rightarrow> error + demand" where
  "read_demand h a =
     bind_err (get_demand h a)
       (map_err (\<lambda>(day, r). bind_err (get_names h r) (\<lambda>l. Inr (day, l))))"

definition read_doctor :: "store \<Rightarrow> addr \<Rightarrow> error + doctor" where
  "read_doctor h a =
     bind_err (get_details h a) (\<lambda>(e, w, n).
       bind_err (get_days h e) (\<lambda>excluded.
         bind_err (get_days h w) (\<lambda>wanted.
           Inr \<lparr>excluded_days = excluded, wanted_days = wanted, num_shifts = n\<rparr>)))"

definition read_roster :: "store \<Rightarrow> addr \<Rightarrow> error + roster" where
  "read_roster h a =
     bind_err (get_roster h a)
       (map_err (\<lambda>(doctor, r). bind_err (read_doctor h r) (\<lambda>details. Inr (doctor, details))))"

subsection \<open>Conflicts, on the store\<close>

text \<open>
  The dictionary comprehension of \<open>identify_conflicts\<close>: a new dictionary whose values
  are the very list objects of the schedule.
\<close>

fun conflict_items :: "store \<Rightarrow> (int, addr) dict \<Rightarrow> error + (int, addr) dict" where
  "conflict_items h [] = Inr []"
| "conflict_items h ((day, doctors) # rest) =
     (case get_names h doctors of
        Inl e \<Rightarrow> Inl e
      | Inr l \<Rightarrow>
          (case conflict_items h rest of
             Inl e \<Rightarrow> Inl e
           | Inr cs \<Rightarrow> Inr (if length l > 1 then (day, doctors) # cs else cs)))"

definition identify_conflicts_st :: "addr \<Rightarrow> addr comp" where
  "identify_conflicts_st schedule =
     bind_st (read_st (\<lambda>h. get_demand h schedule)) (\<lambda>items.
       bind_st (read_st (\<lambda>h. conflict_items h items)) (\<lambda>conflicts.
         alloc_st (DemandDict conflicts)))"

subsection \<open>Finalizing, on the store\<close>

text \<open>\<open>final_schedule[day] = v\<close> for the dictionary at \<open>fa\<close>.\<close>

definition assign_final_st :: "addr \<Rightarrow> int \<Rightarrow> string option \<Rightarrow> unit comp" where
  "assign_final_st fa day v =
     bind_st (read_st (\<lambda>h. get_final h fa)) (\<lambda>fs.
       write_st fa (FinalDict (AList.update day v fs)))"

text \<open>\<open>doctor_shift_count[doctor] += 1\<close> for the dictionary at \<open>ca\<close>.\<close>

definition bump_counter_st :: "addr \<Rightarrow> string \<Rightarrow> unit comp" where
  "bump_counter_st ca doctor =
     bind_st (read_st (\<lambda>h. get_counter h ca)) (\<lambda>cnt.
       bind_st (lift_st (increment doctor cnt)) (\<lambda>cnt'.
         write_st ca (CounterDict cnt')))"

definition seed_step_st :: "addr \<Rightarrow> addr \<Rightarrow> addr \<Rightarrow> int \<times> addr \<Rightarrow> unit comp" where
  "seed_step_st resolved_schedule fa ca = (\<lambda>(day, assigned_doctors).
     bind_st (read_st (\<lambda>h. get_resolution h resolved_schedule)) (\<lambda>resolved.
       case map_of resolved day of
         Some d \<Rightarrow>
           bind_st (assign_final_st fa day (Some d)) (\<lambda>u. bump_counter_st ca d)
       | None \<Rightarrow>
           bind_st (read_st (\<lambda>h. get_names h assigned_doctors)) (\<lambda>l.
             case l of
               [d] \<Rightarrow> bind_st (assign_final_st fa day (Some d)) (\<lambda>u. bump_counter_st ca d)
             | _ \<Rightarrow> assign_final_st fa day None)))"

fun seed_loop_st :: "addr \<Rightarrow> addr \<Rightarrow> addr \<Rightarrow> (int, addr) dict \<Rightarrow> unit comp" where
  "seed_loop_st resolved_schedule fa ca [] h = (Inr (), h)"
| "seed_loop_st resolved_schedule fa ca (item # rest) h =
     (case seed_step_st resolved_schedule fa ca item h of
        (Inl e, h') \<Rightarrow> (Inl e, h')
      | (Inr u, h') \<Rightarrow> seed_loop_st resolved_schedule fa ca rest h')"

text \<open>
  The condition of the list comprehension, reading the roster in the store: the entry of
  the doctor, its \<open>num_shifts\<close>, and its list of excluded days only when the first
  conjunct holds.
\<close>

definition available_st ::
  "store \<Rightarrow> addr \<Rightarrow> final \<Rightarrow> int \<Rightarrow> string \<times> int \<Rightarrow> error + bool" where
  "available_st h doctors fs day = (\<lambda>(doctor, count).
     bind_err (get_roster h doctors) (\<lambda>roster_items.
       case map_of roster_items doctor of
         None \<Rightarrow> Inl (KeyErrorDoctor doctor)
       | Some r \<Rightarrow>
           bind_err (get_details h r) (\<lambda>(e, w, n).
             if \<not> shifts_left n count then Inr False
             else
               bind_err (get_days h e) (\<lambda>excluded.
                 if day \<in> set excluded then Inr False
                 else
                   bind_err (not_on_previous_day fs day doctor) (\<lambda>previous_ok.
                     if \<not> previous_ok then Inr False
                     else not_on_next_day fs day doctor)))))"

fun available_doctors_st ::
  "store \<Rightarrow> addr \<Rightarrow> final \<Rightarrow> int \<Rightarrow> counter \<Rightarrow> error + string list" where
  "available_doctors_st h doctors fs day [] = Inr []"
| "available_doctors_st h doctors fs day ((doctor, count) # rest) =
     (case available_st h doctors fs day (doctor, count) of
        Inl e \<Rightarrow> Inl e
      | Inr b \<Rightarrow>
          (case available_doctors_st h doctors fs day rest of
             Inl e \<Rightarrow> Inl e
           | Inr ds \<Rightarrow> Inr (if b then doctor # ds else ds)))"

definition fill_step_st :: "addr \<Rightarrow> addr \<Rightarrow> addr \<Rightarrow> (int \<Rightarrow> nat) \<Rightarrow> int \<Rightarrow> unit comp" where
  "fill_step_st doctors fa ca rnd day =
     bind_st (read_st (\<lambda>h. get_final h fa)) (\<lambda>fs.
       bind_st (lift_st (lookup_day fs day)) (\<lambda>cur.
         case cur of
           Some d \<Rightarrow> return_st ()
         | None \<Rightarrow>
             bind_st (read_st (\<lambda>h.
                 bind_err (get_counter h ca) (\<lambda>cnt.
                   available_doctors_st h doctors fs day cnt))) (\<lambda>av.
               if av = [] then return_st ()
               else
                 (let selected_doctor = choice rnd day av
                  in bind_st (assign_final_st fa day (Some selected_doctor)) (\<lambda>u.
                       bump_counter_st ca selected_doctor)))))"

fun fill_loop_st :: "addr \<Rightarrow> addr \<Rightarrow> addr \<Rightarrow> (int \<Rightarrow> nat) \<Rightarrow> int list \<Rightarrow> unit comp" where
  "fill_loop_st doctors fa ca rnd [] h = (Inr (), h)"
| "fill_loop_st doctors fa ca rnd (day # days) h =
     (case fill_step_st doctors fa ca rnd day h of
        (Inl e, h') \<Rightarrow> (Inl e, h')
      | (Inr u, h') \<Rightarrow> fill_loop_st doctors fa ca rnd days h')"

definition cleanup_step_st :: "addr \<Rightarrow> int \<Rightarrow> unit comp" where
  "cleanup_step_st fa day =
     bind_st (read_st (\<lambda>h. get_final h fa)) (\<lambda>fs.
       bind_st (lift_st (lookup_day fs day)) (\<lambda>cur.
         bind_st (lift_st (lookup_day fs (day - 1))) (\<lambda>prev.
           if cur = prev then assign_final_st fa day None else return_st ())))"

fun cleanup_loop_st :: "addr \<Rightarrow> int list \<Rightarrow> unit comp" where
  "cleanup_loop_st fa [] h = (Inr (), h)"
| "cleanup_loop_st fa (day # days) h =
     (case cleanup_step_st fa day h of
        (Inl e, h') \<Rightarrow> (Inl e, h')
      | (Inr u, h') \<Rightarrow> cleanup_loop_st fa days h')"

definition finalize_schedule_st ::
  "addr \<Rightarrow> addr \<Rightarrow> addr \<Rightarrow> (int \<Rightarrow> nat) \<Rightarrow> addr comp" where
  "finalize_schedule_st schedule resolved_schedule doctors rnd =
     bind_st (alloc_st (FinalDict [])) (\<lambda>fa.
     bind_st (read_st (\<lambda>h. get_roster h doctors)) (\<lambda>roster_items.
     bind_st (alloc_st (CounterDict (map (\<lambda>(doctor, r). (doctor, 0)) roster_items))) (\<lambda>ca.
     bind_st (read_st (\<lambda>h. get_demand h schedule)) (\<lambda>items.
     bind_st (seed_loop_st resolved_schedule fa ca items) (\<lambda>u.
     bind_st (read_st (\<lambda>h. get_final h fa)) (\<lambda>fs.
     bind_st (fill_loop_st doctors fa ca rnd [1..int (length fs)]) (\<lambda>u.
     bind_st (read_st (\<lambda>h. get_final h fa)) (\<lambda>fs'.
     bind_st (cleanup_loop_st fa [2..int (length fs') - 1]) (\<lambda>u.
     return_st fa)))))))))"

text \<open>
  A computation that changes no object except those at \<open>fa\<close> and \<open>ca\<close>, removes
  none, and leaves a schedule at \<open>fa\<close> and a shift counter at \<open>ca\<close> if they were
  there.
\<close>

definition is_final :: "obj \<Rightarrow> bool" where
  "is_final x = (case x of FinalDict d \<Rightarrow> True | _ \<Rightarrow> False)"

definition is_counter :: "obj \<Rightarrow> bool" where
  "is_counter x = (case x of CounterDict d \<Rightarrow> True | _ \<Rightarrow> False)"

definition frame :: "addr \<Rightarrow> addr \<Rightarrow> store \<Rightarrow> store \<Rightarrow> bool" where
  "frame fa ca h h' =
     (length h' = length h
      \<and> (\<forall>a. a \<noteq> fa \<and> a \<noteq> ca \<longrightarrow> h' ! a = h ! a)
      \<and> (is_final (h ! fa) \<longrightarrow> is_final (h' ! fa))
      \<and> (is_counter (h ! ca) \<longrightarrow> is_counter (h' ! ca)))"

definition writes_only :: "addr \<Rightarrow> addr \<Rightarrow> 'a comp \<Rightarrow> bool" where
  "writes_only fa ca m = (\<forall>h. frame fa ca h (snd (m h)))"

text \<open>A small store: two candidate lists, a demand map, a resolution map and a roster.\<close>

definition example_store :: store where
  "example_store =
     [NameList [''A''],
      NameList [''A'', ''B''],
      NameList [],
      DemandDict [(1, 0), (2, 1), (3, 2)],
      ResolutionDict [(2, ''B'')],
      DayList [],
      DayList [1, 2],
      DetailsDict 5 6 (Some 2),
      DayList [3],
      DayList [2],
      DetailsDict 8 9 None,
      RosterDict [(''A'', 7), (''B'', 10)]]"

text \<open>The finalizer after its two allocations, with the new addresses as parameters.\<close>

definition finalize_rest ::
  "addr \<Rightarrow> addr \<Rightarrow> addr \<Rightarrow> (int \<Rightarrow> nat) \<Rightarrow> addr \<Rightarrow> addr \<Rightarrow> addr comp" where
  "finalize_rest schedule resolved_schedule doctors rnd fa ca =
     bind_st (read_st (\<lambda>h. get_demand h schedule)) (\<lambda>items.
     bind_st (seed_loop_st resolved_schedule fa ca items) (\<lambda>u.
     bind_st (read_st (\<lambda>h. get_final h fa)) (\<lambda>fs.
     bind_st (fill_loop_st doctors fa ca rnd [1..int (length fs)]) (\<lambda>u.
     bind_st (read_st (\<lambda>h. get_final h fa)) (\<lambda>fs'.
     bind_st (cleanup_loop_st fa [2..int (length fs') - 1]) (\<lambda>u.
     return_st fa))))))"

text \<open>
  The store \<open>h\<close> extends \<open>h0\<close> by a schedule \<open>fs\<close> and a shift counter \<open>cnt\<close>, in this
  order, and is otherwise equal to \<open>h0\<close>.
\<close>

definition extended :: "store \<Rightarrow> store \<Rightarrow> final \<Rightarrow> counter \<Rightarrow> bool" where
  "extended h0 h fs cnt = (h = h0 @ [FinalDict fs, CounterDict cnt])"

text \<open>
  The outcome of a computation on an extended store simulates a result of the functional
  model: the same error, or a return that leaves the extended store of the model's
  state.
\<close>

definition simulates ::
  "store \<Rightarrow> (error + unit) \<times> store \<Rightarrow> error + final \<times> counter \<Rightarrow> bool" where
  "simulates h0 out r =
     (case r of
        Inl e \<Rightarrow> fst out = Inl e
      | Inr (fs, cnt) \<Rightarrow> fst out = Inr () \<and> extended h0 (snd out) fs cnt)"

section \<open>Lemmas about the model\<close>

subsection \<open>Association lists\<close>

lemma update_fresh: "k \<notin> fst ` set al \<Longrightarrow> AList.update k v al = al @ [(k, v)]"
  by (induction al) auto

lemma update_keys_present: "map_of al k = Some w \<Longrightarrow> map fst (AList.update k v al) = map fst al"
  by (induction al) (auto split: if_splits)

lemma set_update_subset: "set (AList.update k v al) \<subseteq> insert (k, v) (set al)"
  by (induction al) auto

lemma map_of_update: "map_of (AList.update k v al) k' = (if k' = k then Some v else map_of al k')"
  by (simp add: update_conv')

lemma map_of_keys: "(map_of al k \<noteq> None) = (k \<in> fst ` set al)"
  by (simp add: map_of_eq_None_iff)

subsection \<open>The shift counter\<close>

lemma increment_Inr:
  "increment d cnt = Inr cnt' \<Longrightarrow>
     \<exists>c. map_of cnt d = Some c \<and> cnt' = AList.update d (c + 1) cnt"
  by (auto simp: increment_def split: option.splits)

lemma increment_keys: "increment d cnt = Inr cnt' \<Longrightarrow> map fst cnt' = map fst cnt"
  by (auto dest!: increment_Inr simp: update_keys_present)

lemma increment_known: "d \<in> fst ` set cnt \<Longrightarrow> \<exists>cnt'. increment d cnt = Inr cnt'"
  by (cases "map_of cnt d") (auto simp: increment_def map_of_eq_None_iff)

lemma increment_unknown: "d \<notin> fst ` set cnt \<Longrightarrow> increment d cnt = Inl (KeyErrorDoctor d)"
  by (simp add: increment_def map_of_eq_None_iff[THEN iffD2])

subsection \<open>First loop\<close>

lemma seed_pass_step:
  "seed_pass ((day, l) # rest) r (fs, cnt) =
     (case seed_value r day l of
        Some d \<Rightarrow> (case increment d cnt of
                     Inl e \<Rightarrow> Inl e
                   | Inr cnt' \<Rightarrow> seed_pass rest r (AList.update day (Some d) fs, cnt'))
      | None \<Rightarrow> seed_pass rest r (AList.update day None fs, cnt))"
  by (auto simp: seed_value_def split: option.splits list.splits)

lemma seed_pass_counter_keys:
  "seed_pass s r (fs, cnt) = Inr (fs', cnt') \<Longrightarrow> map fst cnt' = map fst cnt"
proof (induction s arbitrary: fs cnt)
  case Nil
  then show ?case by simp
next
  case (Cons a s)
  obtain day l where a: "a = (day, l)" by (cases a)
  show ?case
    using Cons.prems Cons.IH unfolding a seed_pass_step
    by (auto split: option.splits sum.splits dest: increment_keys)
qed

lemma seed_pass_days:
  "seed_pass s r (fs, cnt) = Inr (fs', cnt') \<Longrightarrow> distinct (map fst s) \<Longrightarrow>
   fst ` set fs \<inter> fst ` set s = {} \<Longrightarrow> map fst fs' = map fst fs @ map fst s"
proof (induction s arbitrary: fs cnt)
  case Nil
  then show ?case by simp
next
  case (Cons a s)
  obtain day l where a: "a = (day, l)" by (cases a)
  have fresh: "day \<notin> fst ` set fs" using Cons.prems(3) a by auto
  have upd: "\<And>v. AList.update day v fs = fs @ [(day, v)]"
    using fresh by (rule update_fresh)
  have disj: "\<And>v. fst ` set (fs @ [(day, v)]) \<inter> fst ` set s = {}"
    using Cons.prems(2,3) a by auto
  have dist: "distinct (map fst s)" using Cons.prems(2) by simp
  show ?case
    using Cons.prems(1) Cons.IH[OF _ dist disj] unfolding a seed_pass_step upd
    by (auto split: option.splits sum.splits)
qed

lemma seed_pass_lookup:
  "seed_pass s r (fs, cnt) = Inr (fs', cnt') \<Longrightarrow> distinct (map fst s) \<Longrightarrow>
   map_of fs' day =
     (case map_of s day of None \<Rightarrow> map_of fs day | Some l \<Rightarrow> Some (seed_value r day l))"
proof (induction s arbitrary: fs cnt)
  case Nil
  then show ?case by simp
next
  case (Cons a s)
  obtain day0 l0 where a: "a = (day0, l0)" by (cases a)
  have dist: "distinct (map fst s)" and notin: "day0 \<notin> fst ` set s"
    using Cons.prems(2) a by auto
  have none: "map_of s day0 = None" using notin by (simp add: map_of_eq_None_iff)
  show ?case
    using Cons.prems(1) Cons.IH[OF _ dist] none unfolding a seed_pass_step
    by (auto split: option.splits sum.splits simp: map_of_update)
qed

lemma seed_pass_total:
  "\<forall>(day, l) \<in> set s. \<forall>d. seed_value r day l = Some d \<longrightarrow> d \<in> fst ` set cnt \<Longrightarrow>
   \<exists>st. seed_pass s r (fs, cnt) = Inr st"
proof (induction s arbitrary: fs cnt)
  case Nil
  then show ?case by simp
next
  case (Cons a s)
  obtain day l where a: "a = (day, l)" by (cases a)
  have rest: "\<forall>(day, l) \<in> set s. \<forall>d. seed_value r day l = Some d \<longrightarrow> d \<in> fst ` set cnt"
    using Cons.prems by simp
  show ?case
  proof (cases "seed_value r day l")
    case None
    have "\<exists>st. seed_pass s r (AList.update day None fs, cnt) = Inr st"
      using rest by (rule Cons.IH)
    then show ?thesis unfolding a seed_pass_step None by simp
  next
    case (Some d)
    have "d \<in> fst ` set cnt" using Cons.prems a Some by simp
    then obtain cnt' where inc: "increment d cnt = Inr cnt'"
      using increment_known by blast
    have keys: "fst ` set cnt' = fst ` set cnt"
      using increment_keys[OF inc] by (metis set_map)
    have "\<exists>st. seed_pass s r (AList.update day (Some d) fs, cnt') = Inr st"
      using rest unfolding keys[symmetric] by (rule Cons.IH)
    then show ?thesis by (simp add: a seed_pass_step Some inc del: seed_pass.simps)
  qed
qed

lemma seed_pass_unknown:
  "(day, l) \<in> set s \<Longrightarrow> seed_value r day l = Some d \<Longrightarrow> d \<notin> fst ` set cnt \<Longrightarrow>
   \<exists>d'. seed_pass s r (fs, cnt) = Inl (KeyErrorDoctor d') \<and> d' \<notin> fst ` set cnt"
proof (induction s arbitrary: fs cnt)
  case Nil
  then show ?case by simp
next
  case (Cons a s)
  obtain day0 l0 where a: "a = (day0, l0)" by (cases a)
  show ?case
  proof (cases "seed_value r day0 l0")
    case None
    then have "(day, l) \<in> set s" using Cons.prems(1,2) a by auto
    from Cons.IH[OF this Cons.prems(2,3)]
    show ?thesis unfolding a seed_pass_step None by simp
  next
    case (Some d0)
    show ?thesis
    proof (cases "d0 \<in> fst ` set cnt")
      case False
      then show ?thesis unfolding a seed_pass_step Some
        by (auto simp: increment_unknown)
    next
      case True
      then obtain cnt' where inc: "increment d0 cnt = Inr cnt'"
        using increment_known by blast
      have keys: "fst ` set cnt' = fst ` set cnt"
        using increment_keys[OF inc] by (metis set_map)
      have "d0 \<noteq> d" using True Cons.prems(3) by auto
      then have "(day, l) \<noteq> (day0, l0)" using Some Cons.prems(2) by auto
      then have "(day, l) \<in> set s" using Cons.prems(1) a by auto
      from Cons.IH[OF this Cons.prems(2), of cnt'] Cons.prems(3) keys
      show ?thesis by (simp add: a seed_pass_step Some inc del: seed_pass.simps)
    qed
  qed
qed

subsection \<open>Second loop\<close>

lemma choice_in_set: "xs \<noteq> [] \<Longrightarrow> choice rnd day xs \<in> set xs"
  by (simp add: choice_def)

lemma lookup_day_Inr: "lookup_day fs day = Inr v \<longleftrightarrow> map_of fs day = Some v"
  by (simp add: lookup_day_def split: option.splits)

lemma lookup_day_total: "day \<in> fst ` set fs \<Longrightarrow> \<exists>v. lookup_day fs day = Inr v"
  by (cases "map_of fs day") (auto simp: lookup_day_def map_of_eq_None_iff)

lemma available_True:
  "available doctors fs day (d, c) = Inr True \<Longrightarrow>
     \<exists>details. map_of doctors d = Some details
       \<and> shifts_left (num_shifts details) c
       \<and> day \<notin> set (excluded_days details)
       \<and> (day \<noteq> 1 \<longrightarrow> map_of fs (day - 1) \<noteq> Some (Some d))
       \<and> (day \<noteq> int (length fs) \<longrightarrow> map_of fs (day + 1) \<noteq> Some (Some d))"
  by (auto simp: available_def not_on_previous_day_def not_on_next_day_def bind_err_def
                 lookup_day_def
           split: option.splits if_splits sum.splits)

lemma available_doctors_mem:
  "available_doctors doctors fs day cnt = Inr av \<Longrightarrow> d \<in> set av \<Longrightarrow>
     \<exists>c. (d, c) \<in> set cnt \<and> available doctors fs day (d, c) = Inr True"
proof (induction cnt arbitrary: av)
  case Nil
  then show ?case by simp
next
  case (Cons a cnt)
  obtain d0 c0 where a: "a = (d0, c0)" by (cases a)
  from Cons.prems(1) obtain b ds where
    b: "available doctors fs day (d0, c0) = Inr b" and
    ds: "available_doctors doctors fs day cnt = Inr ds" and
    av: "av = (if b then d0 # ds else ds)"
    by (auto simp: a split: sum.splits)
  show ?case
  proof (cases "d \<in> set ds")
    case True
    from Cons.IH[OF ds True] show ?thesis by auto
  next
    case False
    then have "b" "d = d0" using Cons.prems(2) av by (auto split: if_splits)
    then show ?thesis using b a by auto
  qed
qed

lemma fill_day_cases:
  assumes "fill_day doctors rnd day (fs, cnt) = Inr (fs', cnt')"
  shows "(\<exists>v. map_of fs day = Some v) \<and>
         ((fs' = fs \<and> cnt' = cnt) \<or>
          (\<exists>av sel c. map_of fs day = Some None
             \<and> available_doctors doctors fs day cnt = Inr av \<and> sel \<in> set av
             \<and> map_of cnt sel = Some c
             \<and> fs' = AList.update day (Some sel) fs
             \<and> cnt' = AList.update sel (c + 1) cnt))"
proof -
  from assms obtain cur where cur: "map_of fs day = Some cur"
    by (auto simp: fill_day_def bind_err_def lookup_day_def split: option.splits)
  show ?thesis
  proof (cases cur)
    case (Some d)
    then show ?thesis using assms cur
      by (auto simp: fill_day_def bind_err_def lookup_day_def)
  next
    case None
    from assms cur None obtain av where
      av: "available_doctors doctors fs day cnt = Inr av"
      by (auto simp: fill_day_def bind_err_def lookup_day_def split: sum.splits)
    show ?thesis
    proof (cases "av = []")
      case True
      then show ?thesis using assms cur None av
        by (auto simp: fill_day_def bind_err_def lookup_day_def)
    next
      case False
      let ?sel = "choice rnd day av"
      have sel: "?sel \<in> set av" using False by (rule choice_in_set)
      from assms cur None av False obtain cnt1 where
        inc: "increment ?sel cnt = Inr cnt1" and
        res: "fs' = AList.update day (Some ?sel) fs" "cnt' = cnt1"
        by (auto simp: fill_day_def bind_err_def lookup_day_def Let_def split: sum.splits)
      from increment_Inr[OF inc] obtain c where
        "map_of cnt ?sel = Some c" "cnt1 = AList.update ?sel (c + 1) cnt" by blast
      then show ?thesis using cur None av sel res by blast
    qed
  qed
qed

lemma fill_day_keys:
  assumes "fill_day doctors rnd day (fs, cnt) = Inr (fs', cnt')"
  shows "map fst fs' = map fst fs" and "map fst cnt' = map fst cnt"
  using fill_day_cases[OF assms] by (auto simp: update_keys_present)

lemma fill_day_other:
  assumes "fill_day doctors rnd day (fs, cnt) = Inr (fs', cnt')" and "k \<noteq> day"
  shows "map_of fs' k = map_of fs k"
  using fill_day_cases[OF assms(1)] assms(2) by (auto simp: map_of_update)

lemma fill_day_keeps:
  assumes "fill_day doctors rnd day (fs, cnt) = Inr (fs', cnt')"
    and "map_of fs k = Some (Some d)"
  shows "map_of fs' k = Some (Some d)"
  using fill_day_cases[OF assms(1)] assms(2) by (auto simp: map_of_update)

lemma fill_day_selected:
  assumes "fill_day doctors rnd day (fs, cnt) = Inr (fs', cnt')"
    and "map_of fs day = Some None" and "map_of fs' day = Some (Some sel)"
  shows "\<exists>c details. (sel, c) \<in> set cnt \<and> map_of doctors sel = Some details
       \<and> shifts_left (num_shifts details) c
       \<and> day \<notin> set (excluded_days details)
       \<and> (day \<noteq> 1 \<longrightarrow> map_of fs (day - 1) \<noteq> Some (Some sel))
       \<and> (day \<noteq> int (length fs) \<longrightarrow> map_of fs (day + 1) \<noteq> Some (Some sel))"
proof -
  from fill_day_cases[OF assms(1)] assms(2,3) obtain av where
    av: "available_doctors doctors fs day cnt = Inr av" and sel: "sel \<in> set av"
    by (auto simp: map_of_update)
  from available_doctors_mem[OF av sel] obtain c where
    c: "(sel, c) \<in> set cnt" "available doctors fs day (sel, c) = Inr True" by blast
  from available_True[OF c(2)] c(1) show ?thesis by blast
qed

subsection \<open>Third loop\<close>

lemma cleanup_day_cases:
  assumes "cleanup_day day fs = Inr fs'"
  shows "\<exists>cur prev. map_of fs day = Some cur \<and> map_of fs (day - 1) = Some prev
           \<and> fs' = (if cur = prev then AList.update day None fs else fs)"
  using assms
  by (auto simp: cleanup_day_def bind_err_def lookup_day_def split: option.splits if_splits)

lemma cleanup_day_keys: "cleanup_day day fs = Inr fs' \<Longrightarrow> map fst fs' = map fst fs"
  by (auto dest!: cleanup_day_cases simp: update_keys_present)

subsection \<open>Counting assigned days\<close>

lemma assigned_days_append:
  "assigned_days d (fs @ [(k, v)]) = assigned_days d fs + (if v = Some d then 1 else 0)"
  by (simp add: assigned_days_def)

lemma assigned_days_update:
  "map_of fs k = Some old \<Longrightarrow>
   assigned_days d (AList.update k v fs) + (if old = Some d then 1 else 0) =
   assigned_days d fs + (if v = Some d then 1 else 0)"
  by (induction fs) (auto simp: assigned_days_def split: if_splits)

lemma assigned_days_unassign:
  "assigned_days d (AList.update k None fs) \<le> assigned_days d fs"
  by (induction fs) (auto simp: assigned_days_def)

lemma map_of_initial_count:
  "map_of (initial_count doctors) d = (if d \<in> fst ` set doctors then Some 0 else None)"
  by (induction doctors) (auto simp: initial_count_def)

lemma keys_initial_count: "map fst (initial_count doctors) = map fst doctors"
  by (induction doctors) (auto simp: initial_count_def)

lemma seed_pass_count:
  "seed_pass s r (fs, cnt) = Inr (fs', cnt') \<Longrightarrow> distinct (map fst s) \<Longrightarrow>
   fst ` set fs \<inter> fst ` set s = {} \<Longrightarrow> map_of cnt d = Some c \<Longrightarrow>
   map_of cnt' d = Some (c + int (assigned_days d fs') - int (assigned_days d fs))"
proof (induction s arbitrary: fs cnt c)
  case Nil
  then show ?case by simp
next
  case (Cons a s)
  obtain day l where a: "a = (day, l)" by (cases a)
  have fresh: "day \<notin> fst ` set fs" using Cons.prems(3) a by auto
  have upd: "\<And>v. AList.update day v fs = fs @ [(day, v)]"
    using fresh by (rule update_fresh)
  have disj: "\<And>v. fst ` set (fs @ [(day, v)]) \<inter> fst ` set s = {}"
    using Cons.prems(2,3) a by auto
  have dist: "distinct (map fst s)" using Cons.prems(2) by simp
  show ?case
  proof (cases "seed_value r day l")
    case None
    with Cons.prems(1) have run: "seed_pass s r (fs @ [(day, None)], cnt) = Inr (fs', cnt')"
      by (simp add: a seed_pass_step upd del: seed_pass.simps)
    from Cons.IH[OF run dist disj Cons.prems(4)] show ?thesis
      by (simp add: assigned_days_append)
  next
    case (Some d0)
    with Cons.prems(1) obtain cnt1 where inc: "increment d0 cnt = Inr cnt1"
      and run: "seed_pass s r (fs @ [(day, Some d0)], cnt1) = Inr (fs', cnt')"
      by (auto simp: a seed_pass_step upd simp del: seed_pass.simps split: sum.splits)
    from increment_Inr[OF inc] obtain c0 where
      c0: "map_of cnt d0 = Some c0" "cnt1 = AList.update d0 (c0 + 1) cnt" by blast
    have c1: "map_of cnt1 d = Some (c + (if d0 = d then 1 else 0))"
      using c0 Cons.prems(4) by (auto simp: map_of_update)
    from Cons.IH[OF run dist disj c1] show ?thesis
      by (auto simp: assigned_days_append)
  qed
qed

lemma seeded_count:
  assumes "seeded schedule r doctors = Inr (fs0, cnt0)" and "wf_dict schedule"
    and "d \<in> fst ` set doctors"
  shows "map_of cnt0 d = Some (int (assigned_days d fs0))"
proof -
  have c: "map_of (initial_count doctors) d = Some 0"
    using assms(3) by (simp add: map_of_initial_count)
  have run: "seed_pass schedule r ([], initial_count doctors) = Inr (fs0, cnt0)"
    using assms(1) by (simp add: seeded_def)
  have dist: "distinct (map fst schedule)" using assms(2) by (simp add: wf_dict_def)
  from seed_pass_count[OF run dist _ c] show ?thesis
    by (simp add: assigned_days_def)
qed

lemma seeded_keys:
  assumes "seeded schedule r doctors = Inr (fs0, cnt0)"
  shows "map fst cnt0 = map fst doctors"
  using seed_pass_counter_keys[of schedule r "[]" "initial_count doctors" fs0 cnt0] assms
  by (simp add: seeded_def keys_initial_count)

lemma seeded_days:
  assumes "seeded schedule r doctors = Inr (fs0, cnt0)" and "wf_dict schedule"
  shows "map fst fs0 = map fst schedule"
  using seed_pass_days[of schedule r "[]" "initial_count doctors" fs0 cnt0] assms
  by (simp add: seeded_def wf_dict_def)

lemma seeded_lookup:
  assumes "seeded schedule r doctors = Inr (fs0, cnt0)" and "wf_dict schedule"
  shows "map_of fs0 day = map_option (seed_value r day) (map_of schedule day)"
  using seed_pass_lookup[of schedule r "[]" "initial_count doctors" fs0 cnt0 day] assms
  by (simp add: seeded_def wf_dict_def split: option.splits)

subsection \<open>The capacity bound through the second loop\<close>

lemma fill_day_bound:
  assumes run: "fill_day doctors rnd day (fs, cnt) = Inr (fs', cnt')"
    and dist: "distinct (map fst cnt)"
    and doc: "map_of doctors d = Some details" "num_shifts details = Some m"
    and mB: "m \<le> B"
    and c: "map_of cnt d = Some c" "int (assigned_days d fs) \<le> c" "c \<le> B"
  shows "\<exists>c'. map_of cnt' d = Some c' \<and> int (assigned_days d fs') \<le> c' \<and> c' \<le> B"
proof -
  from fill_day_cases[OF run] consider
    (same) "fs' = fs" "cnt' = cnt"
    | (pick) av sel c0 where "map_of fs day = Some None"
        "available_doctors doctors fs day cnt = Inr av" "sel \<in> set av"
        "map_of cnt sel = Some c0" "fs' = AList.update day (Some sel) fs"
        "cnt' = AList.update sel (c0 + 1) cnt"
    by blast
  then show ?thesis
  proof cases
    case same
    then show ?thesis using c by simp
  next
    case pick
    have days: "assigned_days d fs' = assigned_days d fs + (if sel = d then 1 else 0)"
      using assigned_days_update[OF pick(1), of d "Some sel"] pick(5) by auto
    show ?thesis
    proof (cases "sel = d")
      case False
      then show ?thesis using c days pick(6) by (simp add: map_of_update)
    next
      case True
      from available_doctors_mem[OF pick(2,3)] obtain c1 where
        c1: "(sel, c1) \<in> set cnt" "available doctors fs day (sel, c1) = Inr True" by blast
      have "map_of cnt sel = Some c1" using c1(1) dist by simp
      then have "c1 = c" using c(1) True by simp
      moreover from available_True[OF c1(2)] doc True
      have "shifts_left (Some m) c1" by auto
      ultimately have "c < m" by simp
      moreover have "c0 = c" using pick(4) c(1) True by simp
      ultimately show ?thesis using c mB days True pick(6) by (simp add: map_of_update)
    qed
  qed
qed

lemma fill_pass_bound:
  "fill_pass doctors rnd days (fs, cnt) = Inr (fs', cnt') \<Longrightarrow>
   distinct (map fst cnt) \<Longrightarrow>
   map_of doctors d = Some details \<Longrightarrow> num_shifts details = Some m \<Longrightarrow> m \<le> B \<Longrightarrow>
   map_of cnt d = Some c \<Longrightarrow> int (assigned_days d fs) \<le> c \<Longrightarrow> c \<le> B \<Longrightarrow>
   \<exists>c'. map_of cnt' d = Some c' \<and> int (assigned_days d fs') \<le> c' \<and> c' \<le> B"
proof (induction days arbitrary: fs cnt c)
  case Nil
  then show ?case by simp
next
  case (Cons day days)
  from Cons.prems(1) obtain fs1 cnt1 where
    step: "fill_day doctors rnd day (fs, cnt) = Inr (fs1, cnt1)" and
    rest: "fill_pass doctors rnd days (fs1, cnt1) = Inr (fs', cnt')"
    by (auto split: sum.splits)
  from fill_day_bound[OF step Cons.prems(2-8)] obtain c1 where
    c1: "map_of cnt1 d = Some c1" "int (assigned_days d fs1) \<le> c1" "c1 \<le> B" by blast
  have dist1: "distinct (map fst cnt1)"
    using fill_day_keys(2)[OF step] Cons.prems(2) by simp
  from Cons.IH[OF rest dist1 Cons.prems(3-5) c1] show ?case .
qed

lemma cleanup_pass_days_le:
  "cleanup_pass days fs = Inr fs' \<Longrightarrow> assigned_days d fs' \<le> assigned_days d fs"
proof (induction days arbitrary: fs)
  case Nil
  then show ?case by simp
next
  case (Cons day days)
  from Cons.prems obtain fs1 where
    step: "cleanup_day day fs = Inr fs1" and rest: "cleanup_pass days fs1 = Inr fs'"
    by (auto split: sum.splits)
  have "assigned_days d fs1 \<le> assigned_days d fs"
    using cleanup_day_cases[OF step] by (auto simp: assigned_days_unassign)
  with Cons.IH[OF rest] show ?case by simp
qed

lemma finalize_stages:
  assumes "finalize_schedule schedule r doctors rnd = Inr fs"
  shows "\<exists>fs0 cnt0 fs1 cnt1.
           seeded schedule r doctors = Inr (fs0, cnt0)
         \<and> fill_pass doctors rnd [1..int (length fs0)] (fs0, cnt0) = Inr (fs1, cnt1)
         \<and> cleanup_pass [2..int (length fs1) - 1] fs1 = Inr fs"
  using assms
  by (auto simp: finalize_schedule_def filled_def bind_err_def split: sum.splits)



subsection \<open>When the finalizer returns\<close>

lemma same_keys_set: "map fst a = map fst b \<Longrightarrow> fst ` set a = fst ` set b"
  by (metis set_map)

lemma same_keys_length: "map fst a = map fst b \<Longrightarrow> length a = length b"
  by (metis length_map)

lemma covers_days_keys:
  "map fst fs' = map fst fs \<Longrightarrow> covers_days fs \<Longrightarrow> covers_days fs'"
  using same_keys_set[of fs' fs] same_keys_length[of fs' fs] by (simp add: covers_days_def)

lemma available_total:
  assumes "covers_days fs" and "1 \<le> day" and "day \<le> int (length fs)"
    and "d \<in> fst ` set doctors"
  shows "\<exists>b. available doctors fs day (d, c) = Inr b"
proof -
  obtain details where det: "map_of doctors d = Some details"
    using assms(4) by (metis map_of_eq_None_iff not_Some_eq)
  have "day \<noteq> 1 \<Longrightarrow> \<exists>v. lookup_day fs (day - 1) = Inr v"
    using assms(1-3) by (intro lookup_day_total) (auto simp: covers_days_def)
  then obtain p where p: "not_on_previous_day fs day d = Inr p"
    by (cases "day = 1") (auto simp: not_on_previous_day_def bind_err_def)
  have "day \<noteq> int (length fs) \<Longrightarrow> \<exists>v. lookup_day fs (day + 1) = Inr v"
    using assms(1-3) by (intro lookup_day_total) (auto simp: covers_days_def)
  then obtain q where q: "not_on_next_day fs day d = Inr q"
    by (cases "day = int (length fs)") (auto simp: not_on_next_day_def bind_err_def)
  show ?thesis
  proof (cases "shifts_left (num_shifts details) c \<and> day \<notin> set (excluded_days details) \<and> p")
    case True
    then have "available doctors fs day (d, c) = Inr q"
      by (simp add: available_def det p q bind_err_def)
    then show ?thesis ..
  next
    case False
    then have "available doctors fs day (d, c) = Inr False"
      by (auto simp: available_def det p q bind_err_def)
    then show ?thesis ..
  qed
qed

lemma available_doctors_total:
  assumes "covers_days fs" and "1 \<le> day" and "day \<le> int (length fs)"
  shows "fst ` set cnt \<subseteq> fst ` set doctors \<Longrightarrow>
         \<exists>av. available_doctors doctors fs day cnt = Inr av"
proof (induction cnt)
  case Nil
  then show ?case by simp
next
  case (Cons a cnt)
  obtain d c where a: "a = (d, c)" by (cases a)
  have "d \<in> fst ` set doctors" using Cons.prems a by auto
  from available_total[OF assms this, of c] obtain b where
    "available doctors fs day (d, c) = Inr b" by blast
  moreover from Cons have "\<exists>av. available_doctors doctors fs day cnt = Inr av" by auto
  ultimately show ?case by (auto simp: a)
qed

lemma available_doctors_subset:
  assumes "available_doctors doctors fs day cnt = Inr av"
  shows "set av \<subseteq> fst ` set cnt"
proof
  fix d assume "d \<in> set av"
  from available_doctors_mem[OF assms this] obtain c where "(d, c) \<in> set cnt" by blast
  then show "d \<in> fst ` set cnt" by force
qed

lemma fill_day_total:
  assumes "covers_days fs" and "1 \<le> day" and "day \<le> int (length fs)"
    and "fst ` set cnt \<subseteq> fst ` set doctors"
  shows "\<exists>st. fill_day doctors rnd day (fs, cnt) = Inr st"
proof -
  have "day \<in> fst ` set fs" using assms(1-3) by (auto simp: covers_days_def)
  then obtain cur where cur: "lookup_day fs day = Inr cur"
    using lookup_day_total by blast
  from available_doctors_total[OF assms] obtain av where
    av: "available_doctors doctors fs day cnt = Inr av" by blast
  show ?thesis
  proof (cases "cur = None \<and> av \<noteq> []")
    case False
    then show ?thesis using cur av
      by (auto simp: fill_day_def bind_err_def split: option.splits)
  next
    case True
    then have "choice rnd day av \<in> fst ` set cnt"
      using available_doctors_subset[OF av] choice_in_set by blast
    then obtain cnt' where "increment (choice rnd day av) cnt = Inr cnt'"
      using increment_known by blast
    then show ?thesis using cur av True
      by (auto simp: fill_day_def bind_err_def)
  qed
qed

lemma fill_pass_total:
  "covers_days fs \<Longrightarrow> set days \<subseteq> {1..int (length fs)} \<Longrightarrow>
   fst ` set cnt \<subseteq> fst ` set doctors \<Longrightarrow>
   \<exists>st. fill_pass doctors rnd days (fs, cnt) = Inr st"
proof (induction days arbitrary: fs cnt)
  case Nil
  then show ?case by simp
next
  case (Cons day days)
  have "1 \<le> day" "day \<le> int (length fs)" using Cons.prems(2) by auto
  from fill_day_total[OF Cons.prems(1) this Cons.prems(3)] obtain fs1 cnt1 where
    step: "fill_day doctors rnd day (fs, cnt) = Inr (fs1, cnt1)" by fastforce
  note keys = fill_day_keys[OF step]
  have "covers_days fs1" using covers_days_keys[OF keys(1) Cons.prems(1)] .
  moreover have "length fs1 = length fs" using keys(1) by (metis length_map)
  moreover have "fst ` set cnt1 = fst ` set cnt" using keys(2) by (metis set_map)
  ultimately have "\<exists>st. fill_pass doctors rnd days (fs1, cnt1) = Inr st"
    using Cons.prems(2,3) by (intro Cons.IH) auto
  then show ?case using step by simp
qed

lemma fill_pass_keys:
  "fill_pass doctors rnd days (fs, cnt) = Inr (fs', cnt') \<Longrightarrow>
   map fst fs' = map fst fs \<and> map fst cnt' = map fst cnt"
proof (induction days arbitrary: fs cnt)
  case Nil
  then show ?case by simp
next
  case (Cons day days)
  from Cons.prems obtain fs1 cnt1 where
    step: "fill_day doctors rnd day (fs, cnt) = Inr (fs1, cnt1)" and
    rest: "fill_pass doctors rnd days (fs1, cnt1) = Inr (fs', cnt')"
    by (auto split: sum.splits)
  show ?case using Cons.IH[OF rest] fill_day_keys[OF step] by simp
qed

lemma cleanup_pass_total:
  "covers_days fs \<Longrightarrow> set days \<subseteq> {2..int (length fs)} \<Longrightarrow>
   \<exists>fs'. cleanup_pass days fs = Inr fs'"
proof (induction days arbitrary: fs)
  case Nil
  then show ?case by simp
next
  case (Cons day days)
  have "day \<in> fst ` set fs" "day - 1 \<in> fst ` set fs"
    using Cons.prems by (auto simp: covers_days_def)
  then obtain cur prev where
    "lookup_day fs day = Inr cur" "lookup_day fs (day - 1) = Inr prev"
    using lookup_day_total by blast
  then have "\<exists>fs1. cleanup_day day fs = Inr fs1"
    by (simp add: cleanup_day_def bind_err_def)
  then obtain fs1 where step: "cleanup_day day fs = Inr fs1" ..
  note keys = cleanup_day_keys[OF step]
  have "covers_days fs1" using covers_days_keys[OF keys Cons.prems(1)] .
  moreover have "length fs1 = length fs" using keys by (metis length_map)
  ultimately have "\<exists>fs'. cleanup_pass days fs1 = Inr fs'"
    using Cons.prems(2) by (intro Cons.IH) auto
  then show ?case using step by simp
qed

lemma cleanup_pass_keys:
  "cleanup_pass days fs = Inr fs' \<Longrightarrow> map fst fs' = map fst fs"
proof (induction days arbitrary: fs)
  case Nil
  then show ?case by simp
next
  case (Cons day days)
  from Cons.prems obtain fs1 where
    step: "cleanup_day day fs = Inr fs1" and rest: "cleanup_pass days fs1 = Inr fs'"
    by (auto split: sum.splits)
  show ?case using Cons.IH[OF rest] cleanup_day_keys[OF step] by simp
qed

lemma finalize_total:
  assumes wf: "wf_dict schedule" and cov: "covers_days schedule"
    and known: "\<forall>(day, l) \<in> set schedule. \<forall>d.
                  seed_value r day l = Some d \<longrightarrow> d \<in> fst ` set doctors"
  shows "\<exists>fs. finalize_schedule schedule r doctors rnd = Inr fs"
proof -
  have "fst ` set (initial_count doctors) = fst ` set doctors"
    using keys_initial_count[of doctors] by (metis set_map)
  with known have "\<exists>st. seed_pass schedule r ([], initial_count doctors) = Inr st"
    by (intro seed_pass_total) simp
  then obtain fs0 cnt0 where seed: "seeded schedule r doctors = Inr (fs0, cnt0)"
    by (auto simp: seeded_def)
  have cov0: "covers_days fs0"
    using covers_days_keys[OF seeded_days[OF seed wf] cov] .
  have keys0: "fst ` set cnt0 \<subseteq> fst ` set doctors"
    using seeded_keys[OF seed] by (metis set_map subset_refl)
  have "\<exists>st. fill_pass doctors rnd [1..int (length fs0)] (fs0, cnt0) = Inr st"
    by (rule fill_pass_total[OF cov0 _ keys0]) simp
  then obtain fs1 cnt1 where
    fill: "fill_pass doctors rnd [1..int (length fs0)] (fs0, cnt0) = Inr (fs1, cnt1)"
    by auto
  have cov1: "covers_days fs1"
    using covers_days_keys[OF _ cov0] fill_pass_keys[OF fill] by blast
  have "\<exists>fs. cleanup_pass [2..int (length fs1) - 1] fs1 = Inr fs"
    by (rule cleanup_pass_total[OF cov1]) auto
  then obtain fs where "cleanup_pass [2..int (length fs1) - 1] fs1 = Inr fs" ..
  then show ?thesis using seed fill
    by (simp add: finalize_schedule_def filled_def bind_err_def)
qed

subsection \<open>A seeded day that survives\<close>

lemma fill_pass_keeps:
  "fill_pass doctors rnd days (fs, cnt) = Inr (fs', cnt') \<Longrightarrow>
   map_of fs k = Some (Some d) \<Longrightarrow> map_of fs' k = Some (Some d)"
proof (induction days arbitrary: fs cnt)
  case Nil
  then show ?case by simp
next
  case (Cons day days)
  from Cons.prems(1) obtain fs1 cnt1 where
    step: "fill_day doctors rnd day (fs, cnt) = Inr (fs1, cnt1)" and
    rest: "fill_pass doctors rnd days (fs1, cnt1) = Inr (fs', cnt')"
    by (auto split: sum.splits)
  from Cons.IH[OF rest fill_day_keeps[OF step Cons.prems(2)]] show ?case .
qed

lemma fill_day_before:
  assumes step: "fill_day doctors rnd day (fs, cnt) = Inr (fs', cnt')"
    and cov: "covers_days fs"
    and nxt: "map_of fs (k + 1) = Some (Some d)"
    and cur: "map_of fs k \<noteq> Some (Some d)"
  shows "map_of fs' k \<noteq> Some (Some d)"
proof (cases "day = k")
  case False
  then show ?thesis using fill_day_other[OF step, of k] cur by simp
next
  case True
  have "k + 1 \<in> fst ` set fs" using nxt by (metis map_of_eq_None_iff option.distinct(1))
  then have notlast: "k \<noteq> int (length fs)" using cov by (auto simp: covers_days_def)
  show ?thesis
  proof
    assume new: "map_of fs' k = Some (Some d)"
    from fill_day_cases[OF step] cur new True have "map_of fs k = Some None"
      by (auto simp: map_of_update)
    from fill_day_selected[OF step] this new True notlast nxt
    show False by auto
  qed
qed

lemma fill_pass_before:
  "fill_pass doctors rnd days (fs, cnt) = Inr (fs', cnt') \<Longrightarrow> covers_days fs \<Longrightarrow>
   map_of fs (k + 1) = Some (Some d) \<Longrightarrow> map_of fs k \<noteq> Some (Some d) \<Longrightarrow>
   map_of fs' k \<noteq> Some (Some d)"
proof (induction days arbitrary: fs cnt)
  case Nil
  then show ?case by simp
next
  case (Cons day days)
  from Cons.prems(1) obtain fs1 cnt1 where
    step: "fill_day doctors rnd day (fs, cnt) = Inr (fs1, cnt1)" and
    rest: "fill_pass doctors rnd days (fs1, cnt1) = Inr (fs', cnt')"
    by (auto split: sum.splits)
  have "covers_days fs1"
    using covers_days_keys[OF fill_day_keys(1)[OF step] Cons.prems(2)] .
  from Cons.IH[OF rest this fill_day_keeps[OF step Cons.prems(3)]
      fill_day_before[OF step Cons.prems(2-4)]]
  show ?case .
qed

lemma cleanup_pass_keeps:
  "cleanup_pass days fs = Inr fs' \<Longrightarrow>
   map_of fs t = Some (Some d) \<Longrightarrow> map_of fs (t - 1) \<noteq> Some (Some d) \<Longrightarrow>
   map_of fs' t = Some (Some d)"
proof (induction days arbitrary: fs)
  case Nil
  then show ?case by simp
next
  case (Cons day days)
  from Cons.prems(1) obtain fs1 where
    step: "cleanup_day day fs = Inr fs1" and rest: "cleanup_pass days fs1 = Inr fs'"
    by (auto split: sum.splits)
  from cleanup_day_cases[OF step] Cons.prems(2,3)
  have "map_of fs1 t = Some (Some d) \<and> map_of fs1 (t - 1) \<noteq> Some (Some d)"
    by (auto simp: map_of_update split: if_splits)
  with Cons.IH[OF rest] show ?case by simp
qed

lemma finalize_keeps_seed:
  assumes wf: "wf_dict schedule" and cov: "covers_days schedule"
    and seed: "seeded schedule r doctors = Inr (fs0, cnt0)"
    and fin: "finalize_schedule schedule r doctors rnd = Inr fs"
    and t: "map_of fs0 t = Some (Some d)"
    and before: "map_of fs0 (t - 1) \<noteq> Some (Some d)"
  shows "map_of fs t = Some (Some d)"
proof -
  from finalize_stages[OF fin] seed obtain fs1 cnt1 where
    fill: "fill_pass doctors rnd [1..int (length fs0)] (fs0, cnt0) = Inr (fs1, cnt1)" and
    clean: "cleanup_pass [2..int (length fs1) - 1] fs1 = Inr fs"
    by auto
  have cov0: "covers_days fs0"
    using covers_days_keys[OF seeded_days[OF seed wf] cov] .
  have t1: "map_of fs1 t = Some (Some d)" using fill_pass_keeps[OF fill t] .
  have "map_of fs1 (t - 1) \<noteq> Some (Some d)"
    using fill_pass_before[OF fill cov0, of "t - 1" d] t before by simp
  from cleanup_pass_keeps[OF clean t1 this] show ?thesis .
qed


subsection \<open>Building the demand map\<close>

lemma append_doctor_Inr:
  "append_doctor day doctor s = Inr s' \<Longrightarrow>
   \<exists>l. map_of s day = Some l \<and> s' = AList.update day (l @ [doctor]) s"
  by (auto simp: append_doctor_def split: option.splits)

lemma append_doctor_excluded:
  assumes app: "append_doctor day doctor s = Inr s'"
    and doc: "map_of doctors doctor = Some details"
    and day: "day \<notin> set (excluded_days details)"
    and inv: "respects_excluded doctors s"
  shows "respects_excluded doctors s'"
proof -
  from append_doctor_Inr[OF app] obtain l0 where
    l0: "map_of s day = Some l0" "s' = AList.update day (l0 @ [doctor]) s" by blast
  have old: "(day, l0) \<in> set s" using l0(1) by (rule map_of_SomeD)
  have new: "\<forall>d \<in> set (l0 @ [doctor]). \<forall>det.
      map_of doctors d = Some det \<longrightarrow> day \<notin> set (excluded_days det)"
    using inv old doc day by (fastforce simp: respects_excluded_def)
  have "set s' \<subseteq> insert (day, l0 @ [doctor]) (set s)"
    unfolding l0(2) by (rule set_update_subset)
  then show ?thesis
    using inv new unfolding respects_excluded_def by blast
qed

lemma assign_wanted_excluded:
  "assign_wanted doctor details days s = Inr s' \<Longrightarrow>
   map_of doctors doctor = Some details \<Longrightarrow>
   respects_excluded doctors s \<Longrightarrow> respects_excluded doctors s'"
proof (induction days arbitrary: s)
  case Nil
  then show ?case by simp
next
  case (Cons day days)
  show ?case
  proof (cases "day \<in> set (excluded_days details)")
    case True
    with Cons.prems(1) have "assign_wanted doctor details days s = Inr s'" by simp
    from Cons.IH[OF this Cons.prems(2,3)] show ?thesis .
  next
    case False
    with Cons.prems(1) obtain s1 where
      app: "append_doctor day doctor s = Inr s1" and
      rest: "assign_wanted doctor details days s1 = Inr s'"
      by (auto split: sum.splits)
    from Cons.IH[OF rest Cons.prems(2)
        append_doctor_excluded[OF app Cons.prems(2) False Cons.prems(3)]]
    show ?thesis .
  qed
qed

lemma assign_doctors_excluded:
  "assign_doctors rest num_days s = Inr s' \<Longrightarrow>
   \<forall>(doctor, details) \<in> set rest. map_of doctors doctor = Some details \<Longrightarrow>
   respects_excluded doctors s \<Longrightarrow> respects_excluded doctors s'"
proof (induction rest arbitrary: s)
  case Nil
  then show ?case by simp
next
  case (Cons a rest)
  obtain doctor details where a: "a = (doctor, details)" by (cases a)
  from Cons.prems(1) obtain s1 where
    one: "assign_wanted doctor details (validate_days (wanted_days details) num_days) s
            = Inr s1" and
    more: "assign_doctors rest num_days s1 = Inr s'"
    by (auto simp: a split: sum.splits)
  have doc: "map_of doctors doctor = Some details" using Cons.prems(2) a by simp
  have rest_ok: "\<forall>(doctor, details) \<in> set rest. map_of doctors doctor = Some details"
    using Cons.prems(2) by simp
  from Cons.IH[OF more rest_ok assign_wanted_excluded[OF one doc Cons.prems(3)]]
  show ?case .
qed

subsection \<open>The two-doctor example\<close>

lemma map_of_tabulate:
  "map_of (map (\<lambda>k. (k, f k)) xs) k = (if k \<in> set xs then Some (f k) else None)"
  by (induction xs) auto

lemma demand_day_5_keys: "map fst (demand_day_5 n) = [1..n]"
  by (simp add: demand_day_5_def comp_def)

lemma demand_day_5_wf: "wf_dict (demand_day_5 n)"
  by (simp add: wf_dict_def demand_day_5_keys)

lemma demand_day_5_covers: "0 \<le> n \<Longrightarrow> covers_days (demand_day_5 n)"
  using arg_cong[OF demand_day_5_keys[of n], of set] arg_cong[OF demand_day_5_keys[of n], of length]
  by (simp add: covers_days_def)

lemma demand_day_5_lookup:
  "map_of (demand_day_5 n) day =
     (if 1 \<le> day \<and> day \<le> n then Some (if day = 5 then [''A'', ''B''] else []) else None)"
  by (simp add: demand_day_5_def map_of_tabulate)

lemma demand_day_5_conflicts:
  assumes "5 \<le> n"
  shows "identify_conflicts (demand_day_5 n) = [(5, [''A'', ''B''])]"
proof -
  have split: "[1..n] = [1..4] @ 5 # [6..n]"
    using upto_split3[of 1 5 n] assms by simp
  show ?thesis
    by (simp add: identify_conflicts_def demand_day_5_def split filter_empty_conv)
qed

lemma update_tabulate:
  "distinct xs \<Longrightarrow> k \<in> set xs \<Longrightarrow>
   AList.update k v (map (\<lambda>x. (x, f x)) xs) = map (\<lambda>x. (x, if x = k then v else f x)) xs"
proof (induction xs)
  case Nil
  then show ?case by simp
next
  case (Cons x xs)
  show ?case
  proof (cases "x = k")
    case True
    then have "k \<notin> set xs" using Cons.prems(1) by simp
    then have "map (\<lambda>x. (x, if x = k then v else f x)) xs = map (\<lambda>x. (x, f x)) xs"
      by (intro map_cong) auto
    then show ?thesis using True by simp
  next
    case False
    then show ?thesis using Cons by simp
  qed
qed

lemma days_in_month_ge: "28 \<le> days_in_month y m"
  by (simp add: days_in_month_def)

lemma demand_day_5_generated:
  assumes "1 \<le> month" and "month \<le> 12"
  shows "generate_initial_schedule doctors_A_B month year
           = Inr (demand_day_5 (days_in_month year month))"
proof -
  let ?n = "days_in_month year month"
  let ?s0 = "map (\<lambda>day. (day, [] :: string list)) [1..?n]"
  have n: "5 \<le> ?n" using days_in_month_ge[of year month] by simp
  have in5: "(5::int) \<in> set [1..?n]" using n by simp
  have s1: "AList.update 5 [''A''] ?s0
      = map (\<lambda>day. (day, if day = 5 then [''A''] else [])) [1..?n]"
    using update_tabulate[of "[1..?n]" 5 "[''A'']" "\<lambda>day. []"] in5 by simp
  have s2: "AList.update 5 [''A'', ''B'']
        (map (\<lambda>day. (day, if day = 5 then [''A''] else [])) [1..?n])
      = demand_day_5 ?n"
    using update_tabulate[of "[1..?n]" 5 "[''A'', ''B'']"
        "\<lambda>day. if day = 5 then [''A''] else []"] in5
    by (simp add: demand_day_5_def cong: if_cong)
  have l0: "map_of ?s0 5 = Some []"
    using in5 by (simp add: map_of_tabulate)
  have l1: "map_of (map (\<lambda>day. (day, if day = 5 then [''A''] else [])) [1..?n]) 5
      = Some [''A'']"
    using in5 by (simp add: map_of_tabulate)
  show ?thesis
    using assms n
    by (simp add: generate_initial_schedule_def month_end_day_def bind_err_def
        doctors_A_B_def validate_days_def append_doctor_def l0 s1 l1 s2)
qed

subsection \<open>What the third loop does ensure\<close>

lemma cleanup_day_other:
  "cleanup_day day fs = Inr fs' \<Longrightarrow> k \<noteq> day \<Longrightarrow> map_of fs' k = map_of fs k"
  by (auto dest!: cleanup_day_cases simp: map_of_update split: if_splits)

lemma cleanup_day_differs:
  "cleanup_day day fs = Inr fs' \<Longrightarrow> map_of fs' day = Some (Some d) \<Longrightarrow>
   map_of fs' (day - 1) \<noteq> Some (Some d)"
  by (auto dest!: cleanup_day_cases simp: map_of_update split: if_splits)

lemma cleanup_pass_other:
  "cleanup_pass days fs = Inr fs' \<Longrightarrow> k \<notin> set days \<Longrightarrow> map_of fs' k = map_of fs k"
proof (induction days arbitrary: fs)
  case Nil
  then show ?case by simp
next
  case (Cons day days)
  from Cons.prems(1) obtain fs1 where
    step: "cleanup_day day fs = Inr fs1" and rest: "cleanup_pass days fs1 = Inr fs'"
    by (auto split: sum.splits)
  from Cons.IH[OF rest] cleanup_day_other[OF step, of k] Cons.prems(2)
  show ?case by simp
qed

lemma cleanup_pass_differs:
  "cleanup_pass days fs = Inr fs' \<Longrightarrow> sorted_wrt (<) days \<Longrightarrow> day \<in> set days \<Longrightarrow>
   map_of fs' day = Some (Some d) \<Longrightarrow> map_of fs' (day - 1) \<noteq> Some (Some d)"
proof (induction days arbitrary: fs)
  case Nil
  then show ?case by simp
next
  case (Cons x days)
  from Cons.prems(1) obtain fs1 where
    step: "cleanup_day x fs = Inr fs1" and rest: "cleanup_pass days fs1 = Inr fs'"
    by (auto split: sum.splits)
  have later: "\<forall>y \<in> set days. x < y" and sorted: "sorted_wrt (<) days"
    using Cons.prems(2) by auto
  show ?case
  proof (cases "day = x")
    case True
    have "x \<notin> set days" "x - 1 \<notin> set days" using later by auto
    then have "map_of fs' x = map_of fs1 x" "map_of fs' (x - 1) = map_of fs1 (x - 1)"
      using cleanup_pass_other[OF rest] by simp_all
    then show ?thesis using cleanup_day_differs[OF step, of d] Cons.prems(4) True by simp
  next
    case False
    then have "day \<in> set days" using Cons.prems(3) by simp
    from Cons.IH[OF rest sorted this Cons.prems(4)] show ?thesis .
  qed
qed

lemma finalize_interior_days_differ:
  assumes "finalize_schedule schedule r doctors rnd = Inr fs"
    and "2 \<le> day" and "day < int (length fs)"
    and "map_of fs day = Some (Some d)"
  shows "map_of fs (day - 1) \<noteq> Some (Some d)"
proof -
  from finalize_stages[OF assms(1)] obtain fs1 where
    clean: "cleanup_pass [2..int (length fs1) - 1] fs1 = Inr fs" by blast
  have "length fs = length fs1"
    using cleanup_pass_keys[OF clean] by (metis length_map)
  then have "day \<in> set [2..int (length fs1) - 1]" using assms(2,3) by simp
  from cleanup_pass_differs[OF clean _ this assms(4)] show ?thesis by simp
qed

section \<open>Lemmas about the store model\<close>

subsection \<open>Which objects a computation changes\<close>

lemma frame_refl: "frame fa ca h h"
  by (simp add: frame_def)

lemma frame_trans: "frame fa ca h h1 \<Longrightarrow> frame fa ca h1 h2 \<Longrightarrow> frame fa ca h h2"
  by (simp add: frame_def)

lemma writes_only_return: "writes_only fa ca (return_st x)"
  by (simp add: writes_only_def return_st_def frame_refl)

lemma writes_only_read: "writes_only fa ca (read_st g)"
  by (simp add: writes_only_def read_st_def frame_refl)

lemma writes_only_lift: "writes_only fa ca (lift_st r)"
  by (simp add: writes_only_def lift_st_def frame_refl)

lemma frame_update_fa: "fa \<noteq> ca \<Longrightarrow> frame fa ca h (h[fa := FinalDict x])"
  by (cases "fa < length h") (auto simp: frame_def is_final_def list_update_beyond)

lemma frame_update_ca: "fa \<noteq> ca \<Longrightarrow> frame fa ca h (h[ca := CounterDict x])"
  by (cases "ca < length h") (auto simp: frame_def is_counter_def list_update_beyond)

lemma writes_only_write_fa: "fa \<noteq> ca \<Longrightarrow> writes_only fa ca (write_st fa (FinalDict x))"
  by (simp add: writes_only_def write_st_def frame_update_fa)

lemma writes_only_write_ca: "fa \<noteq> ca \<Longrightarrow> writes_only fa ca (write_st ca (CounterDict x))"
  by (simp add: writes_only_def write_st_def frame_update_ca)

lemma writes_only_bind:
  assumes "writes_only fa ca m" and "\<And>x. writes_only fa ca (f x)"
  shows "writes_only fa ca (bind_st m f)"
  unfolding writes_only_def
proof
  fix h
  obtain r h1 where m: "m h = (r, h1)" by (cases "m h")
  have 1: "frame fa ca h h1"
    using assms(1) m unfolding writes_only_def by (metis snd_conv)
  show "frame fa ca h (snd (bind_st m f h))"
  proof (cases r)
    case (Inl e)
    then show ?thesis using m 1 by (simp add: bind_st_def)
  next
    case (Inr x)
    have "frame fa ca h1 (snd (f x h1))"
      using assms(2)[of x] unfolding writes_only_def by blast
    from frame_trans[OF 1 this] show ?thesis using m Inr by (simp add: bind_st_def)
  qed
qed

lemma writes_only_assign_final: "fa \<noteq> ca \<Longrightarrow> writes_only fa ca (assign_final_st fa day v)"
  unfolding assign_final_st_def
  by (intro writes_only_bind writes_only_read writes_only_write_fa)

lemma writes_only_bump_counter: "fa \<noteq> ca \<Longrightarrow> writes_only fa ca (bump_counter_st ca d)"
  unfolding bump_counter_st_def
  by (intro writes_only_bind writes_only_read writes_only_lift writes_only_write_ca)

lemma writes_only_seed_step:
  assumes ne: "fa \<noteq> ca"
  shows "writes_only fa ca (seed_step_st ra fa ca item)"
proof -
  note writes_only_assign_final = writes_only_assign_final[OF ne]
  note writes_only_bump_counter = writes_only_bump_counter[OF ne]
  obtain day r where item: "item = (day, r)" by (cases item)
  have assign: "\<And>d. writes_only fa ca
      (bind_st (assign_final_st fa day (Some d)) (\<lambda>u. bump_counter_st ca d))"
    by (intro writes_only_bind writes_only_assign_final writes_only_bump_counter)
  have names: "\<And>l. writes_only fa ca
      (case l of [d] \<Rightarrow> bind_st (assign_final_st fa day (Some d)) (\<lambda>u. bump_counter_st ca d)
       | _ \<Rightarrow> assign_final_st fa day None)"
    using assign writes_only_assign_final by (auto split: list.splits)
  show ?thesis
    unfolding item seed_step_st_def prod.case
    by (intro writes_only_bind writes_only_read)
       (auto split: option.splits intro!: assign writes_only_bind writes_only_read names)
qed

lemma writes_only_loop:
  assumes step: "\<And>x. writes_only fa ca (body x)"
    and nil: "\<And>h. loop [] h = (Inr (), h)"
    and cons: "\<And>x xs h. loop (x # xs) h =
        (case body x h of (Inl e, h') \<Rightarrow> (Inl e, h') | (Inr u, h') \<Rightarrow> loop xs h')"
  shows "writes_only fa ca (loop xs)"
proof (induction xs)
  case Nil
  show ?case by (simp add: writes_only_def nil frame_refl)
next
  case (Cons x xs)
  have "loop (x # xs) = bind_st (body x) (\<lambda>u. loop xs)"
    by (rule ext) (simp add: cons bind_st_def)
  then show ?case using writes_only_bind[OF step[of x], of "\<lambda>u. loop xs"] Cons by simp
qed

lemma writes_only_seed_loop: "fa \<noteq> ca \<Longrightarrow> writes_only fa ca (seed_loop_st ra fa ca items)"
  by (rule writes_only_loop[where body = "seed_step_st ra fa ca"])
     (simp_all add: writes_only_seed_step)

lemma writes_only_fill_step: "fa \<noteq> ca \<Longrightarrow> writes_only fa ca (fill_step_st da fa ca rnd day)"
  unfolding fill_step_st_def Let_def
  by (intro writes_only_bind writes_only_read writes_only_lift)
     (auto split: option.splits
           intro!: writes_only_return writes_only_bind writes_only_read
                   writes_only_assign_final writes_only_bump_counter)

lemma writes_only_fill_loop: "fa \<noteq> ca \<Longrightarrow> writes_only fa ca (fill_loop_st da fa ca rnd days)"
  by (rule writes_only_loop[where body = "fill_step_st da fa ca rnd"])
     (simp_all add: writes_only_fill_step)

lemma writes_only_cleanup_step: "fa \<noteq> ca \<Longrightarrow> writes_only fa ca (cleanup_step_st fa day)"
  unfolding cleanup_step_st_def
  by (intro writes_only_bind writes_only_read writes_only_lift)
     (auto intro!: writes_only_return writes_only_assign_final)

lemma writes_only_cleanup_loop: "fa \<noteq> ca \<Longrightarrow> writes_only fa ca (cleanup_loop_st fa days)"
  by (rule writes_only_loop[where body = "cleanup_step_st fa"])
     (simp_all add: writes_only_cleanup_step)


subsection \<open>The finalizer leaves every existing object alone\<close>

lemma writes_only_finalize_rest:
  "fa \<noteq> ca \<Longrightarrow> writes_only fa ca (finalize_rest sa ra da rnd fa ca)"
  unfolding finalize_rest_def
  by (intro writes_only_bind writes_only_read writes_only_return writes_only_seed_loop
            writes_only_fill_loop writes_only_cleanup_loop)

lemma finalize_rest_result:
  "finalize_rest sa ra da rnd fa ca h = (Inr x, h') \<Longrightarrow> x = fa"
  by (auto simp: finalize_rest_def bind_st_def return_st_def read_st_def
           split: sum.splits prod.splits)

lemma finalize_schedule_st_split:
  "finalize_schedule_st sa ra da rnd =
     bind_st (alloc_st (FinalDict [])) (\<lambda>fa.
     bind_st (read_st (\<lambda>h. get_roster h da)) (\<lambda>roster_items.
     bind_st (alloc_st (CounterDict (map (\<lambda>(doctor, r). (doctor, 0)) roster_items))) (\<lambda>ca.
     finalize_rest sa ra da rnd fa ca)))"
  by (simp add: finalize_schedule_st_def finalize_rest_def)

lemma finalize_schedule_st_unfold:
  "finalize_schedule_st sa ra da rnd h =
     (case get_roster (h @ [FinalDict []]) da of
        Inl e \<Rightarrow> (Inl e, h @ [FinalDict []])
      | Inr roster_items \<Rightarrow>
          finalize_rest sa ra da rnd (length h) (length h + 1)
            (h @ [FinalDict [], CounterDict (map (\<lambda>(doctor, r). (doctor, 0)) roster_items)]))"
  by (simp add: finalize_schedule_st_split bind_st_def alloc_st_def read_st_def
           split: sum.splits)

lemma finalize_schedule_st_frame:
  assumes "finalize_schedule_st sa ra da rnd h = (r, h')"
  shows "take (length h) h' = h
       \<and> (\<forall>fa. r = Inr fa \<longrightarrow> fa = length h
            \<and> (\<exists>fs. get_final h' fa = Inr fs)
            \<and> (\<exists>cnt. get_counter h' (length h + 1) = Inr cnt))"
proof (cases "get_roster (h @ [FinalDict []]) da")
  case (Inl e)
  then show ?thesis using assms by (auto simp: finalize_schedule_st_unfold)
next
  case (Inr roster_items)
  let ?fa = "length h" and ?ca = "length h + 1"
  let ?h2 = "h @ [FinalDict [], CounterDict (map (\<lambda>(doctor, r). (doctor, 0)) roster_items)]"
  have run: "finalize_rest sa ra da rnd ?fa ?ca ?h2 = (r, h')"
    using assms Inr by (simp add: finalize_schedule_st_unfold)
  have "frame ?fa ?ca ?h2 h'"
    using writes_only_finalize_rest[of ?fa ?ca sa ra da rnd] run
    unfolding writes_only_def by (metis n_not_Suc_n Suc_eq_plus1 snd_conv)
  then have len: "length h' = length h + 2"
    and same: "\<forall>a. a \<noteq> ?fa \<and> a \<noteq> ?ca \<longrightarrow> h' ! a = ?h2 ! a"
    and fin: "is_final (h' ! ?fa)" and cnt: "is_counter (h' ! ?ca)"
    by (simp_all add: frame_def is_final_def is_counter_def nth_append)
  have "take (length h) h' = h"
    by (rule nth_equalityI) (use len same in \<open>auto simp: nth_append\<close>)
  moreover have "\<exists>fs. get_final h' ?fa = Inr fs"
    using fin len by (auto simp: get_final_def deref_def is_final_def split: obj.splits)
  moreover have "\<exists>c. get_counter h' ?ca = Inr c"
    using cnt len by (auto simp: get_counter_def deref_def is_counter_def split: obj.splits)
  ultimately show ?thesis using finalize_rest_result[of sa ra da rnd ?fa ?ca ?h2 _ h'] run
    by auto
qed

subsection \<open>Reads of existing objects in an extended store\<close>

lemma deref_append: "deref h a = Some x \<Longrightarrow> deref (h @ t) a = Some x"
  by (auto simp: deref_def nth_append split: if_splits)

lemma get_names_append: "get_names h a = Inr l \<Longrightarrow> get_names (h @ t) a = Inr l"
  by (cases "deref h a") (auto simp: get_names_def deref_append split: obj.splits)

lemma get_days_append: "get_days h a = Inr l \<Longrightarrow> get_days (h @ t) a = Inr l"
  by (cases "deref h a") (auto simp: get_days_def deref_append split: obj.splits)

lemma get_demand_append: "get_demand h a = Inr d \<Longrightarrow> get_demand (h @ t) a = Inr d"
  by (cases "deref h a") (auto simp: get_demand_def deref_append split: obj.splits)

lemma get_resolution_append:
  "get_resolution h a = Inr d \<Longrightarrow> get_resolution (h @ t) a = Inr d"
  by (cases "deref h a") (auto simp: get_resolution_def deref_append split: obj.splits)

lemma get_details_append: "get_details h a = Inr d \<Longrightarrow> get_details (h @ t) a = Inr d"
  by (cases "deref h a") (auto simp: get_details_def deref_append split: obj.splits)

lemma get_roster_append: "get_roster h a = Inr d \<Longrightarrow> get_roster (h @ t) a = Inr d"
  by (cases "deref h a") (auto simp: get_roster_def deref_append split: obj.splits)

lemma map_err_mono:
  "map_err f xs = Inr ys \<Longrightarrow> (\<And>x y. x \<in> set xs \<Longrightarrow> f x = Inr y \<Longrightarrow> g x = Inr y) \<Longrightarrow>
   map_err g xs = Inr ys"
proof (induction xs arbitrary: ys)
  case Nil
  then show ?case by simp
next
  case (Cons x xs)
  from Cons.prems(1) obtain y ys' where
    y: "f x = Inr y" and ys': "map_err f xs = Inr ys'" and ys: "ys = y # ys'"
    by (auto split: sum.splits)
  have "g x = Inr y" using Cons.prems(2)[of x y] y by simp
  moreover have "map_err g xs = Inr ys'"
    using Cons.IH[OF ys'] Cons.prems(2) by simp
  ultimately show ?case using ys by simp
qed

lemma read_demand_append:
  assumes "read_demand h a = Inr s"
  shows "read_demand (h @ t) a = Inr s"
proof -
  from assms obtain items where
    items: "get_demand h a = Inr items" and
    all: "map_err (\<lambda>(day, r). bind_err (get_names h r) (\<lambda>l. Inr (day, l))) items = Inr s"
    by (auto simp: read_demand_def bind_err_def split: sum.splits)
  have "map_err (\<lambda>(day, r). bind_err (get_names (h @ t) r) (\<lambda>l. Inr (day, l))) items = Inr s"
    by (rule map_err_mono[OF all])
       (auto simp: bind_err_def get_names_append split: sum.splits)
  then show ?thesis
    using get_demand_append[OF items, of t] by (simp add: read_demand_def bind_err_def)
qed

lemma read_doctor_append:
  "read_doctor h a = Inr d \<Longrightarrow> read_doctor (h @ t) a = Inr d"
  by (auto simp: read_doctor_def bind_err_def get_details_append get_days_append
           split: sum.splits)

lemma read_roster_append:
  assumes "read_roster h a = Inr ro"
  shows "read_roster (h @ t) a = Inr ro"
proof -
  from assms obtain items where
    items: "get_roster h a = Inr items" and
    all: "map_err (\<lambda>(doctor, r). bind_err (read_doctor h r) (\<lambda>details. Inr (doctor, details)))
            items = Inr ro"
    by (auto simp: read_roster_def bind_err_def split: sum.splits)
  have "map_err (\<lambda>(doctor, r). bind_err (read_doctor (h @ t) r)
          (\<lambda>details. Inr (doctor, details))) items = Inr ro"
    by (rule map_err_mono[OF all])
       (auto simp: bind_err_def read_doctor_append split: sum.splits)
  then show ?thesis
    using get_roster_append[OF items, of t] by (simp add: read_roster_def bind_err_def)
qed

lemma extended_final: "extended h0 h fs cnt \<Longrightarrow> get_final h (length h0) = Inr fs"
  by (simp add: extended_def get_final_def deref_def nth_append)

lemma extended_counter: "extended h0 h fs cnt \<Longrightarrow> get_counter h (Suc (length h0)) = Inr cnt"
  by (simp add: extended_def get_counter_def deref_def nth_append)

lemma extended_set_final:
  "extended h0 h fs cnt \<Longrightarrow> extended h0 (h[length h0 := FinalDict fs']) fs' cnt"
  by (simp add: extended_def list_update_append)

lemma extended_set_counter:
  "extended h0 h fs cnt \<Longrightarrow> extended h0 (h[Suc (length h0) := CounterDict cnt']) fs cnt'"
  by (simp add: extended_def list_update_append)

subsection \<open>The store computations simulate the functional model\<close>

lemma simulates_Inr:
  "extended h0 h' fs cnt \<Longrightarrow> simulates h0 (Inr (), h') (Inr (fs, cnt))"
  by (simp add: simulates_def)

lemma simulates_InrD:
  "simulates h0 out (Inr (fs, cnt)) \<Longrightarrow> \<exists>h'. out = (Inr (), h') \<and> extended h0 h' fs cnt"
  by (cases out) (simp add: simulates_def)

lemma simulates_InlD: "simulates h0 out (Inl e) \<Longrightarrow> \<exists>h'. out = (Inl e, h')"
  by (cases out) (simp add: simulates_def)

lemma simulates_bind:
  assumes "simulates h0 (m h) r"
    and "\<And>fs cnt h'. r = Inr (fs, cnt) \<Longrightarrow> extended h0 h' fs cnt \<Longrightarrow>
           simulates h0 (m' h') (k (fs, cnt))"
  shows "simulates h0 (bind_st m (\<lambda>u. m') h) (case r of Inl e \<Rightarrow> Inl e | Inr st \<Rightarrow> k st)"
proof (cases r)
  case (Inl e)
  with assms(1) obtain h' where "m h = (Inl e, h')" using simulates_InlD by blast
  then show ?thesis using Inl by (simp add: simulates_def bind_st_def)
next
  case (Inr st)
  obtain fs cnt where st: "st = (fs, cnt)" by (cases st)
  from assms(1) Inr st obtain h' where
    h': "m h = (Inr (), h')" "extended h0 h' fs cnt" using simulates_InrD by blast
  have "simulates h0 (m' h') (k (fs, cnt))" using assms(2) Inr st h'(2) by simp
  moreover have "bind_st m (\<lambda>u. m') h = m' h'" using h'(1) by (simp add: bind_st_def)
  ultimately show ?thesis using Inr st by simp
qed

lemma bind_st_read:
  "bind_st (read_st g) f h = (case g h of Inl e \<Rightarrow> (Inl e, h) | Inr x \<Rightarrow> f x h)"
  by (simp add: bind_st_def read_st_def split: sum.splits)

lemma bind_st_lift:
  "bind_st (lift_st r) f h = (case r of Inl e \<Rightarrow> (Inl e, h) | Inr x \<Rightarrow> f x h)"
  by (simp add: bind_st_def lift_st_def split: sum.splits)

lemma assign_final_st_extended:
  assumes "extended h0 h fs cnt"
  shows "assign_final_st (length h0) day v h
           = (Inr (), h[length h0 := FinalDict (AList.update day v fs)])"
  using extended_final[OF assms]
  by (simp add: assign_final_st_def bind_st_read write_st_def)

lemma simulates_assign_final:
  assumes "extended h0 h fs cnt"
  shows "simulates h0 (assign_final_st (length h0) day v h)
           (Inr (AList.update day v fs, cnt))"
  unfolding assign_final_st_extended[OF assms]
  by (rule simulates_Inr) (rule extended_set_final[OF assms])

lemma simulates_bump_counter:
  assumes "extended h0 h fs cnt"
  shows "simulates h0 (bump_counter_st (Suc (length h0)) d h)
           (case increment d cnt of Inl e \<Rightarrow> Inl e | Inr cnt' \<Rightarrow> Inr (fs, cnt'))"
proof (cases "increment d cnt")
  case (Inl e)
  then show ?thesis
    using extended_counter[OF assms]
    by (simp add: simulates_def bump_counter_st_def bind_st_read bind_st_lift)
next
  case (Inr cnt')
  have run: "bump_counter_st (Suc (length h0)) d h
          = (Inr (), h[Suc (length h0) := CounterDict cnt'])"
    using extended_counter[OF assms]
    by (simp add: bump_counter_st_def bind_st_read bind_st_lift write_st_def Inr)
  show ?thesis
    unfolding run Inr sum.case
    by (rule simulates_Inr) (rule extended_set_counter[OF assms])
qed

lemma simulates_assign_bump:
  assumes "extended h0 h fs cnt"
  shows "simulates h0
           (bind_st (assign_final_st (length h0) day (Some d))
              (\<lambda>u. bump_counter_st (Suc (length h0)) d) h)
           (case increment d cnt of
              Inl e \<Rightarrow> Inl e
            | Inr cnt' \<Rightarrow> Inr (AList.update day (Some d) fs, cnt'))"
proof -
  have "simulates h0
      (bind_st (assign_final_st (length h0) day (Some d))
         (\<lambda>u. bump_counter_st (Suc (length h0)) d) h)
      (case Inr (AList.update day (Some d) fs, cnt) of
         Inl e \<Rightarrow> Inl e
       | Inr st \<Rightarrow> (case st of (fs', c) \<Rightarrow>
           (case increment d c of Inl e \<Rightarrow> Inl e | Inr cnt' \<Rightarrow> Inr (fs', cnt'))))"
    by (rule simulates_bind, rule simulates_assign_final[OF assms])
       (simp add: simulates_bump_counter)
  then show ?thesis by simp
qed

lemma simulates_seed_step:
  assumes ext: "extended h0 h fs cnt"
    and res: "get_resolution h0 ra = Inr resolved"
    and names: "get_names h0 r = Inr l"
  shows "simulates h0 (seed_step_st ra (length h0) (Suc (length h0)) (day, r) h)
           (seed_pass [(day, l)] resolved (fs, cnt))"
proof -
  have h: "h = h0 @ [FinalDict fs, CounterDict cnt]" using ext by (simp add: extended_def)
  have res': "get_resolution h ra = Inr resolved"
    unfolding h using res by (rule get_resolution_append)
  have names': "get_names h r = Inr l"
    unfolding h using names by (rule get_names_append)
  show ?thesis
  proof (cases "map_of resolved day")
    case (Some d)
    have st: "seed_step_st ra (length h0) (Suc (length h0)) (day, r) h
            = bind_st (assign_final_st (length h0) day (Some d))
                (\<lambda>u. bump_counter_st (Suc (length h0)) d) h"
      by (simp add: seed_step_st_def bind_st_read res' Some)
    have pure: "seed_pass [(day, l)] resolved (fs, cnt)
            = (case increment d cnt of Inl e \<Rightarrow> Inl e
               | Inr cnt' \<Rightarrow> Inr (AList.update day (Some d) fs, cnt'))"
      by (simp add: Some split: sum.splits)
    show ?thesis
      unfolding pure st by (rule simulates_assign_bump[OF ext])
  next
    case None
    show ?thesis
    proof (cases "\<exists>d. l = [d]")
      case True
      then obtain d where l: "l = [d]" by blast
      have st: "seed_step_st ra (length h0) (Suc (length h0)) (day, r) h
              = bind_st (assign_final_st (length h0) day (Some d))
                  (\<lambda>u. bump_counter_st (Suc (length h0)) d) h"
        by (simp add: seed_step_st_def bind_st_read res' None names' l)
      have pure: "seed_pass [(day, l)] resolved (fs, cnt)
              = (case increment d cnt of Inl e \<Rightarrow> Inl e
                 | Inr cnt' \<Rightarrow> Inr (AList.update day (Some d) fs, cnt'))"
        by (simp add: None l split: sum.splits)
      show ?thesis
        unfolding pure st by (rule simulates_assign_bump[OF ext])
    next
      case False
      have st: "seed_step_st ra (length h0) (Suc (length h0)) (day, r) h
              = assign_final_st (length h0) day None h"
        using False
        by (auto simp: seed_step_st_def bind_st_read res' None names' split: list.splits)
      have pure: "seed_pass [(day, l)] resolved (fs, cnt)
              = Inr (AList.update day None fs, cnt)"
        using False by (auto simp: None split: list.splits)
      show ?thesis
        unfolding pure st by (rule simulates_assign_final[OF ext])
    qed
  qed
qed

lemma seed_pass_Cons:
  "seed_pass (x # xs) r st =
     (case seed_pass [x] r st of Inl e \<Rightarrow> Inl e | Inr st' \<Rightarrow> seed_pass xs r st')"
  by (cases x; cases st) (auto split: option.splits sum.splits list.splits)

lemma seed_loop_st_Cons:
  "seed_loop_st ra fa ca (item # rest) h =
     bind_st (seed_step_st ra fa ca item) (\<lambda>u. seed_loop_st ra fa ca rest) h"
  by (simp add: bind_st_def)

lemma simulates_seed_loop:
  "map_err (\<lambda>(day, r). bind_err (get_names h0 r) (\<lambda>l. Inr (day, l))) items = Inr schedule \<Longrightarrow>
   get_resolution h0 ra = Inr resolved \<Longrightarrow> extended h0 h fs cnt \<Longrightarrow>
   simulates h0 (seed_loop_st ra (length h0) (Suc (length h0)) items h)
     (seed_pass schedule resolved (fs, cnt))"
proof (induction items arbitrary: schedule h fs cnt)
  case Nil
  then show ?case by (simp add: simulates_def)
next
  case (Cons item items)
  obtain day r where item: "item = (day, r)" by (cases item)
  from Cons.prems(1) obtain l rest where
    l: "get_names h0 r = Inr l" and
    rest: "map_err (\<lambda>(day, r). bind_err (get_names h0 r) (\<lambda>l. Inr (day, l))) items
             = Inr rest" and
    schedule: "schedule = (day, l) # rest"
    by (auto simp: item bind_err_def split: sum.splits)
  have step: "simulates h0 (seed_step_st ra (length h0) (Suc (length h0)) item h)
      (seed_pass [(day, l)] resolved (fs, cnt))"
    unfolding item by (rule simulates_seed_step[OF Cons.prems(3,2) l])
  have "simulates h0
      (bind_st (seed_step_st ra (length h0) (Suc (length h0)) item)
         (\<lambda>u. seed_loop_st ra (length h0) (Suc (length h0)) items) h)
      (case seed_pass [(day, l)] resolved (fs, cnt) of
         Inl e \<Rightarrow> Inl e | Inr st \<Rightarrow> seed_pass rest resolved st)"
    by (rule simulates_bind, rule step, rule Cons.IH[OF rest Cons.prems(2)])
  then show ?case
    unfolding schedule seed_loop_st_Cons seed_pass_Cons[of "(day, l)" rest] .
qed

subsection \<open>Reading the roster entry by entry\<close>

lemma roster_lookup:
  "map_err (\<lambda>(doctor, r). bind_err (read_doctor h r) (\<lambda>details. Inr (doctor, details))) items
     = Inr doctors \<Longrightarrow>
   (case map_of items d of
      None \<Rightarrow> map_of doctors d = None
    | Some r \<Rightarrow> (\<exists>details. read_doctor h r = Inr details \<and> map_of doctors d = Some details))"
proof (induction items arbitrary: doctors)
  case Nil
  then show ?case by simp
next
  case (Cons item items)
  obtain d0 r0 where item: "item = (d0, r0)" by (cases item)
  from Cons.prems obtain det0 rest where
    det0: "read_doctor h r0 = Inr det0" and
    rest: "map_err (\<lambda>(doctor, r). bind_err (read_doctor h r)
             (\<lambda>details. Inr (doctor, details))) items = Inr rest" and
    doctors: "doctors = (d0, det0) # rest"
    by (auto simp: item bind_err_def split: sum.splits)
  show ?case
    using Cons.IH[OF rest] det0 by (auto simp: item doctors split: option.splits)
qed

lemma read_doctor_Inr:
  "read_doctor h r = Inr details \<Longrightarrow>
   \<exists>e w. get_details h r = Inr (e, w, num_shifts details)
        \<and> get_days h e = Inr (excluded_days details)"
  by (auto simp: read_doctor_def bind_err_def split: sum.splits)

lemma available_st_eq:
  assumes "read_roster h da = Inr doctors"
  shows "available_st h da fs day (d, c) = available doctors fs day (d, c)"
proof -
  from assms obtain items where
    items: "get_roster h da = Inr items" and
    all: "map_err (\<lambda>(doctor, r). bind_err (read_doctor h r)
            (\<lambda>details. Inr (doctor, details))) items = Inr doctors"
    by (auto simp: read_roster_def bind_err_def split: sum.splits)
  show ?thesis
  proof (cases "map_of items d")
    case None
    with roster_lookup[OF all, of d] have "map_of doctors d = None" by simp
    then show ?thesis by (simp add: available_st_def available_def bind_err_def items None)
  next
    case (Some r)
    with roster_lookup[OF all, of d] obtain details where
      det: "read_doctor h r = Inr details" "map_of doctors d = Some details" by auto
    from read_doctor_Inr[OF det(1)] obtain e w where
      "get_details h r = Inr (e, w, num_shifts details)"
      "get_days h e = Inr (excluded_days details)" by blast
    then show ?thesis
      by (simp add: available_st_def available_def bind_err_def items Some det(2))
  qed
qed

lemma available_doctors_st_eq:
  assumes "read_roster h da = Inr doctors"
  shows "available_doctors_st h da fs day cnt = available_doctors doctors fs day cnt"
proof (induction cnt)
  case Nil
  show ?case by simp
next
  case (Cons a cnt)
  obtain d c where a: "a = (d, c)" by (cases a)
  show ?case by (simp add: a available_st_eq[OF assms] Cons.IH split: sum.splits)
qed

lemma simulates_return:
  "extended h0 h fs cnt \<Longrightarrow> simulates h0 (return_st () h) (Inr (fs, cnt))"
  by (simp add: return_st_def simulates_Inr)

lemma simulates_fill_step:
  assumes ext: "extended h0 h fs cnt"
    and ro: "read_roster h0 da = Inr doctors"
  shows "simulates h0 (fill_step_st da (length h0) (Suc (length h0)) rnd day h)
           (fill_day doctors rnd day (fs, cnt))"
proof -
  have h: "h = h0 @ [FinalDict fs, CounterDict cnt]" using ext by (simp add: extended_def)
  have ro': "read_roster h da = Inr doctors"
    unfolding h using ro by (rule read_roster_append)
  note fin = extended_final[OF ext] and cn = extended_counter[OF ext]
  show ?thesis
  proof (cases "lookup_day fs day")
    case (Inl e)
    then show ?thesis
      using fin by (simp add: fill_step_st_def fill_day_def bind_st_read bind_st_lift
          bind_err_def simulates_def)
  next
    case (Inr cur)
    show ?thesis
    proof (cases cur)
      case (Some d)
      have st: "fill_step_st da (length h0) (Suc (length h0)) rnd day h = return_st () h"
        using fin by (simp add: fill_step_st_def bind_st_read bind_st_lift Inr Some)
      have pure: "fill_day doctors rnd day (fs, cnt) = Inr (fs, cnt)"
        by (simp add: fill_day_def bind_err_def Inr Some)
      show ?thesis unfolding st pure by (rule simulates_return[OF ext])
    next
      case None
      show ?thesis
      proof (cases "available_doctors doctors fs day cnt")
        case (Inl e)
        then show ?thesis
          using fin cn
          by (simp add: fill_step_st_def fill_day_def bind_st_read bind_st_lift
              bind_err_def simulates_def Inr None available_doctors_st_eq[OF ro'])
      next
        case av: (Inr av)
        show ?thesis
        proof (cases "av = []")
          case True
          have st: "fill_step_st da (length h0) (Suc (length h0)) rnd day h = return_st () h"
            using fin cn
            by (simp add: fill_step_st_def bind_st_read bind_st_lift bind_err_def Inr None
                av True available_doctors_st_eq[OF ro'])
          have pure: "fill_day doctors rnd day (fs, cnt) = Inr (fs, cnt)"
            by (simp add: fill_day_def bind_err_def Inr None av True)
          show ?thesis unfolding st pure by (rule simulates_return[OF ext])
        next
          case False
          let ?sel = "choice rnd day av"
          have st: "fill_step_st da (length h0) (Suc (length h0)) rnd day h
                  = bind_st (assign_final_st (length h0) day (Some ?sel))
                      (\<lambda>u. bump_counter_st (Suc (length h0)) ?sel) h"
            using fin cn
            by (simp add: fill_step_st_def bind_st_read bind_st_lift bind_err_def Inr None
                av False Let_def available_doctors_st_eq[OF ro'])
          have pure: "fill_day doctors rnd day (fs, cnt)
                  = (case increment ?sel cnt of Inl e \<Rightarrow> Inl e
                     | Inr cnt' \<Rightarrow> Inr (AList.update day (Some ?sel) fs, cnt'))"
            by (simp add: fill_day_def bind_err_def Inr None av False Let_def)
          show ?thesis unfolding st pure by (rule simulates_assign_bump[OF ext])
        qed
      qed
    qed
  qed
qed

lemma fill_loop_st_Cons:
  "fill_loop_st da fa ca rnd (day # days) h =
     bind_st (fill_step_st da fa ca rnd day) (\<lambda>u. fill_loop_st da fa ca rnd days) h"
  by (simp add: bind_st_def)

lemma simulates_fill_loop:
  "read_roster h0 da = Inr doctors \<Longrightarrow> extended h0 h fs cnt \<Longrightarrow>
   simulates h0 (fill_loop_st da (length h0) (Suc (length h0)) rnd days h)
     (fill_pass doctors rnd days (fs, cnt))"
proof (induction days arbitrary: h fs cnt)
  case Nil
  then show ?case by (simp add: simulates_def)
next
  case (Cons day days)
  have "simulates h0
      (bind_st (fill_step_st da (length h0) (Suc (length h0)) rnd day)
         (\<lambda>u. fill_loop_st da (length h0) (Suc (length h0)) rnd days) h)
      (case fill_day doctors rnd day (fs, cnt) of
         Inl e \<Rightarrow> Inl e | Inr st \<Rightarrow> fill_pass doctors rnd days st)"
    by (rule simulates_bind, rule simulates_fill_step[OF Cons.prems(2,1)],
        rule Cons.IH[OF Cons.prems(1)])
  then show ?case unfolding fill_loop_st_Cons by simp
qed

lemma simulates_cleanup_step:
  assumes ext: "extended h0 h fs cnt"
  shows "simulates h0 (cleanup_step_st (length h0) day h)
           (case cleanup_day day fs of Inl e \<Rightarrow> Inl e | Inr fs' \<Rightarrow> Inr (fs', cnt))"
proof -
  note fin = extended_final[OF ext]
  show ?thesis
  proof (cases "lookup_day fs day")
    case (Inl e)
    then show ?thesis
      using fin by (simp add: cleanup_step_st_def cleanup_day_def bind_st_read bind_st_lift
          bind_err_def simulates_def)
  next
    case cur: (Inr cur)
    show ?thesis
    proof (cases "lookup_day fs (day - 1)")
      case (Inl e)
      then show ?thesis
        using fin by (simp add: cleanup_step_st_def cleanup_day_def bind_st_read bind_st_lift
            bind_err_def simulates_def cur)
    next
      case prev: (Inr prev)
      show ?thesis
      proof (cases "cur = prev")
        case True
        have st: "cleanup_step_st (length h0) day h = assign_final_st (length h0) day None h"
          using fin by (simp add: cleanup_step_st_def bind_st_read bind_st_lift cur prev True)
        have pure: "cleanup_day day fs = Inr (AList.update day None fs)"
          by (simp add: cleanup_day_def bind_err_def cur prev True)
        show ?thesis unfolding st pure sum.case by (rule simulates_assign_final[OF ext])
      next
        case False
        have st: "cleanup_step_st (length h0) day h = return_st () h"
          using fin by (simp add: cleanup_step_st_def bind_st_read bind_st_lift cur prev False)
        have pure: "cleanup_day day fs = Inr fs"
          by (simp add: cleanup_day_def bind_err_def cur prev False)
        show ?thesis unfolding st pure sum.case by (rule simulates_return[OF ext])
      qed
    qed
  qed
qed

lemma cleanup_loop_st_Cons:
  "cleanup_loop_st fa (day # days) h =
     bind_st (cleanup_step_st fa day) (\<lambda>u. cleanup_loop_st fa days) h"
  by (simp add: bind_st_def)

lemma simulates_cleanup_loop:
  "extended h0 h fs cnt \<Longrightarrow>
   simulates h0 (cleanup_loop_st (length h0) days h)
     (case cleanup_pass days fs of Inl e \<Rightarrow> Inl e | Inr fs' \<Rightarrow> Inr (fs', cnt))"
proof (induction days arbitrary: h fs)
  case Nil
  then show ?case by (simp add: simulates_def)
next
  case (Cons day days)
  have "simulates h0
      (bind_st (cleanup_step_st (length h0) day) (\<lambda>u. cleanup_loop_st (length h0) days) h)
      (case (case cleanup_day day fs of Inl e \<Rightarrow> Inl e | Inr fs' \<Rightarrow> Inr (fs', cnt)) of
         Inl e \<Rightarrow> Inl e
       | Inr st \<Rightarrow> (case st of (fs1, c) \<Rightarrow>
           (case cleanup_pass days fs1 of Inl e \<Rightarrow> Inl e | Inr fs' \<Rightarrow> Inr (fs', c))))"
  proof (rule simulates_bind, rule simulates_cleanup_step[OF Cons.prems])
    fix fs1 c h'
    assume r: "(case cleanup_day day fs of Inl e \<Rightarrow> Inl e | Inr fs' \<Rightarrow> Inr (fs', cnt))
                 = Inr (fs1, c)"
      and ext': "extended h0 h' fs1 c"
    from r have "c = cnt" by (auto split: sum.splits)
    with Cons.IH[OF ext'[unfolded this]]
    show "simulates h0 (cleanup_loop_st (length h0) days h')
        (case (fs1, c) of (fs1, c) \<Rightarrow>
           (case cleanup_pass days fs1 of Inl e \<Rightarrow> Inl e | Inr fs' \<Rightarrow> Inr (fs', c)))"
      by simp
  qed
  then show ?case unfolding cleanup_loop_st_Cons by (cases "cleanup_day day fs") simp_all
qed

subsection \<open>The finalizer on the store computes the functional finalizer\<close>

lemma map_err_keys:
  "map_err (\<lambda>(k, r). bind_err (g r) (\<lambda>x. Inr (k, x))) items = Inr ys \<Longrightarrow>
   map (\<lambda>(k, r). (k, c)) items = map (\<lambda>(k, x). (k, c)) ys"
proof (induction items arbitrary: ys)
  case Nil
  then show ?case by simp
next
  case (Cons item items)
  obtain k r where item: "item = (k, r)" by (cases item)
  from Cons.prems obtain x rest where
    "g r = Inr x" "map_err (\<lambda>(k, r). bind_err (g r) (\<lambda>x. Inr (k, x))) items = Inr rest"
    "ys = (k, x) # rest"
    by (auto simp: item bind_err_def split: sum.splits)
  with Cons.IH[of rest] show ?case by (simp add: item)
qed

lemma bind_st_Inr: "m h = (Inr x, h') \<Longrightarrow> bind_st m f h = f x h'"
  by (simp add: bind_st_def)

lemma bind_st_Inl: "m h = (Inl e, h') \<Longrightarrow> bind_st m f h = (Inl e, h')"
  by (simp add: bind_st_def)

lemma finalize_rest_refines:
  assumes dem: "read_demand h0 sa = Inr schedule"
    and res: "get_resolution h0 ra = Inr resolved"
    and ro: "read_roster h0 da = Inr doctors"
    and ext: "extended h0 h [] (initial_count doctors)"
  shows "case finalize_schedule schedule resolved doctors rnd of
           Inl e \<Rightarrow> fst (finalize_rest sa ra da rnd (length h0) (Suc (length h0)) h) = Inl e
         | Inr fs \<Rightarrow>
             fst (finalize_rest sa ra da rnd (length h0) (Suc (length h0)) h)
               = Inr (length h0)
             \<and> get_final (snd (finalize_rest sa ra da rnd (length h0) (Suc (length h0)) h))
                 (length h0) = Inr fs"
proof -
  let ?fa = "length h0" and ?ca = "Suc (length h0)"
  from dem obtain items where
    items: "get_demand h0 sa = Inr items" and
    all: "map_err (\<lambda>(day, r). bind_err (get_names h0 r) (\<lambda>l. Inr (day, l))) items
            = Inr schedule"
    by (auto simp: read_demand_def bind_err_def split: sum.splits)
  have h: "h = h0 @ [FinalDict [], CounterDict (initial_count doctors)]"
    using ext by (simp add: extended_def)
  have items': "get_demand h sa = Inr items"
    unfolding h using items by (rule get_demand_append)
  have start: "finalize_rest sa ra da rnd ?fa ?ca h =
      bind_st (seed_loop_st ra ?fa ?ca items) (\<lambda>u.
      bind_st (read_st (\<lambda>h. get_final h ?fa)) (\<lambda>fs.
      bind_st (fill_loop_st da ?fa ?ca rnd [1..int (length fs)]) (\<lambda>u.
      bind_st (read_st (\<lambda>h. get_final h ?fa)) (\<lambda>fs'.
      bind_st (cleanup_loop_st ?fa [2..int (length fs') - 1]) (\<lambda>u.
      return_st ?fa))))) h"
    by (simp add: finalize_rest_def bind_st_read items')
  have seed: "simulates h0 (seed_loop_st ra ?fa ?ca items h)
      (seeded schedule resolved doctors)"
    unfolding seeded_def by (rule simulates_seed_loop[OF all res ext])
  show ?thesis
  proof (cases "seeded schedule resolved doctors")
    case (Inl e)
    from simulates_InlD[OF seed[unfolded Inl]] obtain h1 where
      "seed_loop_st ra ?fa ?ca items h = (Inl e, h1)" by blast
    then have "finalize_rest sa ra da rnd ?fa ?ca h = (Inl e, h1)"
      unfolding start by (simp add: bind_st_def)
    moreover have "finalize_schedule schedule resolved doctors rnd = Inl e"
      by (simp add: finalize_schedule_def filled_def Inl bind_err_def)
    ultimately show ?thesis by simp
  next
    case (Inr st0)
    obtain fs0 cnt0 where st0: "st0 = (fs0, cnt0)" by (cases st0)
    from simulates_InrD[OF seed[unfolded Inr st0]] obtain h1 where
      run1: "seed_loop_st ra ?fa ?ca items h = (Inr (), h1)" and
      ext1: "extended h0 h1 fs0 cnt0" by blast
    have after1: "finalize_rest sa ra da rnd ?fa ?ca h =
        bind_st (fill_loop_st da ?fa ?ca rnd [1..int (length fs0)]) (\<lambda>u.
        bind_st (read_st (\<lambda>h. get_final h ?fa)) (\<lambda>fs'.
        bind_st (cleanup_loop_st ?fa [2..int (length fs') - 1]) (\<lambda>u.
        return_st ?fa))) h1"
      unfolding start bind_st_Inr[of "seed_loop_st ra ?fa ?ca items" h, OF run1]
      by (simp add: bind_st_read extended_final[OF ext1])
    have fill: "simulates h0 (fill_loop_st da ?fa ?ca rnd [1..int (length fs0)] h1)
        (fill_pass doctors rnd [1..int (length fs0)] (fs0, cnt0))"
      by (rule simulates_fill_loop[OF ro ext1])
    show ?thesis
    proof (cases "fill_pass doctors rnd [1..int (length fs0)] (fs0, cnt0)")
      case (Inl e)
      from simulates_InlD[OF fill[unfolded Inl]] obtain h2 where
        "fill_loop_st da ?fa ?ca rnd [1..int (length fs0)] h1 = (Inl e, h2)" by blast
      then have "finalize_rest sa ra da rnd ?fa ?ca h = (Inl e, h2)"
        unfolding after1 by (simp add: bind_st_def)
      moreover have "finalize_schedule schedule resolved doctors rnd = Inl e"
        by (simp add: finalize_schedule_def filled_def Inr st0 Inl bind_err_def)
      ultimately show ?thesis by simp
    next
      case fill_ok: (Inr st1)
      obtain fs1 cnt1 where st1: "st1 = (fs1, cnt1)" by (cases st1)
      from simulates_InrD[OF fill[unfolded fill_ok st1]] obtain h2 where
        run2: "fill_loop_st da ?fa ?ca rnd [1..int (length fs0)] h1 = (Inr (), h2)" and
        ext2: "extended h0 h2 fs1 cnt1" by blast
      have after2: "finalize_rest sa ra da rnd ?fa ?ca h =
          bind_st (cleanup_loop_st ?fa [2..int (length fs1) - 1]) (\<lambda>u. return_st ?fa) h2"
        unfolding after1
          bind_st_Inr[of "fill_loop_st da ?fa ?ca rnd [1..int (length fs0)]" h1, OF run2]
        by (simp add: bind_st_read extended_final[OF ext2])
      have clean: "simulates h0 (cleanup_loop_st ?fa [2..int (length fs1) - 1] h2)
          (case cleanup_pass [2..int (length fs1) - 1] fs1 of
             Inl e \<Rightarrow> Inl e | Inr fs' \<Rightarrow> Inr (fs', cnt1))"
        by (rule simulates_cleanup_loop[OF ext2])
      have pure: "finalize_schedule schedule resolved doctors rnd
          = cleanup_pass [2..int (length fs1) - 1] fs1"
        by (simp add: finalize_schedule_def filled_def Inr st0 fill_ok st1 bind_err_def)
      show ?thesis
      proof (cases "cleanup_pass [2..int (length fs1) - 1] fs1")
        case (Inl e)
        from simulates_InlD[OF clean[unfolded Inl sum.case]] obtain h3 where
          "cleanup_loop_st ?fa [2..int (length fs1) - 1] h2 = (Inl e, h3)" by blast
        then have "finalize_rest sa ra da rnd ?fa ?ca h = (Inl e, h3)"
          unfolding after2 by (simp add: bind_st_def)
        then show ?thesis using pure Inl by simp
      next
        case clean_ok: (Inr fs)
        from simulates_InrD[OF clean[unfolded clean_ok sum.case]] obtain h3 where
          run3: "cleanup_loop_st ?fa [2..int (length fs1) - 1] h2 = (Inr (), h3)" and
          ext3: "extended h0 h3 fs cnt1" by blast
        have "finalize_rest sa ra da rnd ?fa ?ca h = (Inr ?fa, h3)"
          unfolding after2
            bind_st_Inr[of "cleanup_loop_st ?fa [2..int (length fs1) - 1]" h2, OF run3]
          by (simp add: return_st_def)
        then show ?thesis using pure clean_ok extended_final[OF ext3] by simp
      qed
    qed
  qed
qed

lemma finalize_schedule_st_refines:
  assumes dem: "read_demand h sa = Inr schedule"
    and res: "get_resolution h ra = Inr resolved"
    and ro: "read_roster h da = Inr doctors"
  shows "case finalize_schedule schedule resolved doctors rnd of
           Inl e \<Rightarrow> fst (finalize_schedule_st sa ra da rnd h) = Inl e
         | Inr fs \<Rightarrow>
             fst (finalize_schedule_st sa ra da rnd h) = Inr (length h)
             \<and> get_final (snd (finalize_schedule_st sa ra da rnd h)) (length h) = Inr fs"
proof -
  from ro obtain items where
    items: "get_roster h da = Inr items" and
    all: "map_err (\<lambda>(doctor, r). bind_err (read_doctor h r)
            (\<lambda>details. Inr (doctor, details))) items = Inr doctors"
    by (auto simp: read_roster_def bind_err_def split: sum.splits)
  have cnt: "map (\<lambda>(doctor, r). (doctor, 0::int)) items = initial_count doctors"
    using map_err_keys[OF all, of 0] by (simp add: initial_count_def)
  have items': "get_roster (h @ [FinalDict []]) da = Inr items"
    using items by (rule get_roster_append)
  have unfold: "finalize_schedule_st sa ra da rnd h =
      finalize_rest sa ra da rnd (length h) (Suc (length h))
        (h @ [FinalDict [], CounterDict (initial_count doctors)])"
    by (simp add: finalize_schedule_st_unfold items' cnt)
  have ext: "extended h (h @ [FinalDict [], CounterDict (initial_count doctors)]) []
      (initial_count doctors)"
    by (simp add: extended_def)
  show ?thesis unfolding unfold by (rule finalize_rest_refines[OF dem res ro ext])
qed

subsection \<open>Conflicts on the store\<close>

lemma conflict_items_filter:
  "map_err (\<lambda>(day, r). bind_err (get_names h r) (\<lambda>l. Inr (day, l))) items = Inr s \<Longrightarrow>
   conflict_items h items
     = Inr (filter (\<lambda>(day, r). case get_names h r of Inr l \<Rightarrow> 1 < length l | Inl e \<Rightarrow> False)
             items)
   \<and> map_err (\<lambda>(day, r). bind_err (get_names h r) (\<lambda>l. Inr (day, l)))
       (filter (\<lambda>(day, r). case get_names h r of Inr l \<Rightarrow> 1 < length l | Inl e \<Rightarrow> False)
          items)
     = Inr (identify_conflicts s)"
proof (induction items arbitrary: s)
  case Nil
  then show ?case by (auto simp: identify_conflicts_def)
next
  case (Cons item items)
  obtain day r where item: "item = (day, r)" by (cases item)
  from Cons.prems obtain l rest where
    l: "get_names h r = Inr l" and
    rest: "map_err (\<lambda>(day, r). bind_err (get_names h r) (\<lambda>l. Inr (day, l))) items
             = Inr rest" and
    s: "s = (day, l) # rest"
    by (auto simp: item bind_err_def split: sum.splits)
  from Cons.IH[OF rest] show ?case
    by (simp add: item l s identify_conflicts_def bind_err_def)
qed

lemma identify_conflicts_st_run:
  assumes "read_demand h schedule = Inr s"
  shows "\<exists>items conflicts.
           get_demand h schedule = Inr items
         \<and> conflicts = filter (\<lambda>(day, r). case get_names h r of
                                   Inr l \<Rightarrow> 1 < length l | Inl e \<Rightarrow> False) items
         \<and> identify_conflicts_st schedule h = (Inr (length h), h @ [DemandDict conflicts])
         \<and> read_demand (h @ [DemandDict conflicts]) (length h) = Inr (identify_conflicts s)
         \<and> read_demand (h @ [DemandDict conflicts]) schedule = Inr s"
proof -
  let ?keep = "\<lambda>(day, r). case get_names h r of Inr l \<Rightarrow> 1 < length l | Inl e \<Rightarrow> False"
  from assms obtain items where
    items: "get_demand h schedule = Inr items" and
    all: "map_err (\<lambda>(day, r). bind_err (get_names h r) (\<lambda>l. Inr (day, l))) items = Inr s"
    by (auto simp: read_demand_def bind_err_def split: sum.splits)
  let ?cs = "filter ?keep items"
  let ?h' = "h @ [DemandDict ?cs]"
  from conflict_items_filter[OF all] have
    cs: "conflict_items h items = Inr ?cs" and
    val: "map_err (\<lambda>(day, r). bind_err (get_names h r) (\<lambda>l. Inr (day, l))) ?cs
            = Inr (identify_conflicts s)"
    by simp_all
  have run: "identify_conflicts_st schedule h = (Inr (length h), ?h')"
    by (simp add: identify_conflicts_st_def bind_st_read alloc_st_def items cs)
  have "map_err (\<lambda>(day, r). bind_err (get_names ?h' r) (\<lambda>l. Inr (day, l))) ?cs
          = Inr (identify_conflicts s)"
    by (rule map_err_mono[OF val])
       (auto simp: bind_err_def get_names_append split: sum.splits)
  moreover have "get_demand ?h' (length h) = Inr ?cs"
    by (simp add: get_demand_def deref_def)
  ultimately have new: "read_demand ?h' (length h) = Inr (identify_conflicts s)"
    by (simp add: read_demand_def bind_err_def)
  have old: "read_demand ?h' schedule = Inr s"
    using assms by (rule read_demand_append)
  show ?thesis using items run new old by blast
qed

subsection \<open>The example store\<close>

lemma example_length: "length example_store = 12"
  by (simp add: example_store_def)

lemma example_conflicts_run:
  "identify_conflicts_st 3 example_store = (Inr 12, example_store @ [DemandDict [(2, 1)]])"
  by code_simp

lemma example_read_demand:
  "read_demand example_store 3 = Inr [(1, [''A'']), (2, [''A'', ''B'']), (3, [])]"
  by code_simp

lemma example_finalize_run:
  "finalize_schedule_st 3 4 11 always_first example_store
     = (Inr 12, example_store @
          [FinalDict [(1, Some ''A''), (2, Some ''B''), (3, Some ''A'')],
           CounterDict [(''A'', 2), (''B'', 1)]])"
  by code_simp

section \<open>The claims\<close>

subsection \<open>Capacity\<close>

text \<open>
  Claim C1, as stated: in the schedule returned by \<open>finalize_schedule\<close> no doctor has
  more assigned days than \<open>num_shifts\<close>. The first loop assigns resolved and
  single-candidate days without reading \<open>num_shifts\<close>, so the claim fails: doctor A
  with a limit of one shift and the wanted days 1 and 3 keeps both days.
\<close>

theorem finalize_exceeds_max_shifts:
  "finalize_schedule [(1, [''A'']), (2, []), (3, [''A''])] []
     [(''A'', \<lparr>excluded_days = [], wanted_days = [1, 3], num_shifts = Some 1\<rparr>)]
     always_first
   = Inr [(1, Some ''A''), (2, None), (3, Some ''A'')]
   \<and> \<not> int (assigned_days ''A'' [(1, Some ''A''), (2, None), (3, Some ''A'')]) \<le> 1"
  by (simp add: finalize_schedule_def filled_def seeded_def initial_count_def bind_err_def
      increment_def fill_day_def lookup_day_def available_def cleanup_day_def
      assigned_days_def upto.simps)

text \<open>
  Claim C1, amended: for dictionaries with distinct keys, in the schedule returned by
  \<open>finalize_schedule\<close> the number of days assigned to a doctor with a finite
  \<open>num_shifts\<close> never exceeds the larger of \<open>num_shifts\<close> and the number of days the
  first loop (resolved conflicts and single candidates) gave that doctor, whatever the
  random choices of the second loop. A doctor without a limit is not limited.
\<close>

theorem finalize_respects_max_shifts:
  assumes "wf_dict schedule" and "wf_dict doctors"
    and "seeded schedule resolved_schedule doctors = Inr (fs0, cnt0)"
    and "finalize_schedule schedule resolved_schedule doctors rnd = Inr fs"
    and "map_of doctors d = Some details" and "num_shifts details = Some m"
  shows "int (assigned_days d fs) \<le> max m (int (assigned_days d fs0))"
proof -
  from finalize_stages[OF assms(4)] assms(3) obtain fs1 cnt1 where
    fill: "fill_pass doctors rnd [1..int (length fs0)] (fs0, cnt0) = Inr (fs1, cnt1)" and
    clean: "cleanup_pass [2..int (length fs1) - 1] fs1 = Inr fs"
    by auto
  have d_in: "d \<in> fst ` set doctors"
    using assms(5) by (metis map_of_eq_None_iff option.distinct(1))
  have c0: "map_of cnt0 d = Some (int (assigned_days d fs0))"
    using seeded_count[OF assms(3,1) d_in] .
  have dist: "distinct (map fst cnt0)"
    using seeded_keys[OF assms(3)] assms(2) by (simp add: wf_dict_def)
  let ?B = "max m (int (assigned_days d fs0))"
  from fill_pass_bound[OF fill dist assms(5,6), of ?B, OF _ c0]
  obtain c1 where "int (assigned_days d fs1) \<le> c1" "c1 \<le> ?B" by auto
  moreover have "assigned_days d fs \<le> assigned_days d fs1"
    using cleanup_pass_days_le[OF clean] .
  ultimately show ?thesis by linarith
qed

theorem finalize_respects_max_shifts_witness:
  "wf_dict [(1::int, [''A'']), (2, []), (3, [])]
   \<and> wf_dict [(''A'', \<lparr>excluded_days = [], wanted_days = [1], num_shifts = Some 2\<rparr>)]
   \<and> seeded [(1, [''A'']), (2, []), (3, [])] []
        [(''A'', \<lparr>excluded_days = [], wanted_days = [1], num_shifts = Some 2\<rparr>)]
      = Inr ([(1, Some ''A''), (2, None), (3, None)], [(''A'', 1)])
   \<and> finalize_schedule [(1, [''A'']), (2, []), (3, [])] []
        [(''A'', \<lparr>excluded_days = [], wanted_days = [1], num_shifts = Some 2\<rparr>)]
        always_first
      = Inr [(1, Some ''A''), (2, None), (3, Some ''A'')]
   \<and> int (assigned_days ''A'' [(1, Some ''A''), (2, None), (3, Some ''A'')])
      \<le> max 2 (int (assigned_days ''A'' [(1, Some ''A''), (2, None), (3, None)]))"
proof -
  let ?s = "[(1::int, [''A'']), (2, []), (3, [])]"
  let ?d = "\<lparr>excluded_days = [], wanted_days = [1], num_shifts = Some 2\<rparr>"
  have h1: "wf_dict ?s" by (simp add: wf_dict_def)
  have h2: "wf_dict [(''A'', ?d)]" by (simp add: wf_dict_def)
  have h3: "seeded ?s [] [(''A'', ?d)]
              = Inr ([(1, Some ''A''), (2, None), (3, None)], [(''A'', 1)])"
    by (simp add: seeded_def initial_count_def increment_def)
  have h4: "finalize_schedule ?s [] [(''A'', ?d)] always_first
              = Inr [(1, Some ''A''), (2, None), (3, Some ''A'')]"
    by (simp add: finalize_schedule_def filled_def h3 bind_err_def increment_def
        fill_day_def lookup_day_def available_def not_on_previous_day_def
        not_on_next_day_def cleanup_day_def choice_def always_first_def Let_def upto.simps)
  have h5: "map_of [(''A'', ?d)] ''A'' = Some ?d" by simp
  have h6: "num_shifts ?d = Some 2" by simp
  show ?thesis
    using finalize_respects_max_shifts[OF h1 h2 h3 h4 h5 h6] h1 h2 h3 h4 by simp
qed

subsection \<open>Consecutive days\<close>

text \<open>
  Claim C2: the returned schedule never gives two consecutive days to the same doctor.
  The third loop runs over \<open>range(2, len(final_schedule))\<close> and so never visits the
  last day. Every day from 2 to N - 1 differs from the day before it (lemma
  \<open>finalize_interior_days_differ\<close>), but the last day can repeat its predecessor:
  with two days that both have the single candidate A, the schedule returned gives A
  both days, for every random source.
\<close>

theorem finalize_last_day_consecutive:
  "finalize_schedule [(1, [''A'']), (2, [''A''])] []
     [(''A'', \<lparr>excluded_days = [], wanted_days = [1, 2], num_shifts = None\<rparr>)] rnd
   = Inr [(1, Some ''A''), (2, Some ''A'')]"
  by (simp add: finalize_schedule_def filled_def seeded_def initial_count_def bind_err_def
      increment_def fill_day_def lookup_day_def upto.simps)

subsection \<open>Holidays\<close>

text \<open>
  Claim C3: \<open>is_weekend_or_holiday\<close> is true for \<open>2025-01-01\<close> with the holidays of
  2025. The holiday strings are built from the month and a table entry that already
  contains the month, so New Year's Day is stored as \<open>2025-01-01-01\<close>; 1 January 2025
  is a Wednesday, and the function returns False.
\<close>

theorem new_year_2025_not_flagged:
  "is_weekend_or_holiday ''2025-01-01'' (get_public_holidays 2025) = Inr False"
  by code_simp

text \<open>
  Claim C7: every string returned by \<open>get_public_holidays\<close> has the format
  \<open>YYYY-MM-DD\<close>. For 2025 the first string returned is \<open>2025-01-01-01\<close>, which does
  not have that format.
\<close>

theorem holiday_string_2025_malformed:
  "''2025-01-01-01'' \<in> set (get_public_holidays 2025)
   \<and> \<not> is_ymd_format ''2025-01-01-01''"
  by code_simp

subsection \<open>The worked example\<close>

text \<open>
  Claim C5: for the roster with the single doctor A (wanted days 1 and 2, no excluded
  days, at most one shift), the demand map \<open>{1: [A], 2: [A], 3: []}\<close> and an empty
  resolution map, the first loop assigns days 1 and 2 to A, the second loop leaves day 3
  unassigned, and the third loop unassigns day 2: the result is
  \<open>{1: A, 2: None, 3: None}\<close>, for every random source.
\<close>

theorem finalize_example_one_doctor:
  "seeded [(1, [''A'']), (2, [''A'']), (3, [])] []
     [(''A'', \<lparr>excluded_days = [], wanted_days = [1, 2], num_shifts = Some 1\<rparr>)]
   = Inr ([(1, Some ''A''), (2, Some ''A''), (3, None)], [(''A'', 2)])
   \<and> filled [(1, [''A'']), (2, [''A'']), (3, [])] []
     [(''A'', \<lparr>excluded_days = [], wanted_days = [1, 2], num_shifts = Some 1\<rparr>)] rnd
   = Inr ([(1, Some ''A''), (2, Some ''A''), (3, None)], [(''A'', 2)])
   \<and> finalize_schedule [(1, [''A'']), (2, [''A'']), (3, [])] []
     [(''A'', \<lparr>excluded_days = [], wanted_days = [1, 2], num_shifts = Some 1\<rparr>)] rnd
   = Inr [(1, Some ''A''), (2, None), (3, None)]"
  by (simp add: finalize_schedule_def filled_def seeded_def initial_count_def bind_err_def
      increment_def fill_day_def lookup_day_def available_def cleanup_day_def upto.simps)

subsection \<open>Unknown doctors in the resolution map\<close>

text \<open>
  Claim C10: if the resolution map gives a day of the demand map a doctor that is not a
  key of the roster, \<open>finalize_schedule\<close> raises a KeyError for a doctor missing from
  the shift counter; it returns no schedule.
\<close>

theorem finalize_unknown_resolved_doctor:
  assumes "day \<in> fst ` set schedule"
    and "map_of resolved_schedule day = Some d"
    and "d \<notin> fst ` set doctors"
  shows "\<exists>d'. finalize_schedule schedule resolved_schedule doctors rnd
                 = Inl (KeyErrorDoctor d') \<and> d' \<notin> fst ` set doctors"
proof -
  from assms(1) obtain l where l: "(day, l) \<in> set schedule" by auto
  have v: "seed_value resolved_schedule day l = Some d"
    using assms(2) by (simp add: seed_value_def)
  have keys: "fst ` set (initial_count doctors) = fst ` set doctors"
    using keys_initial_count[of doctors] by (metis set_map)
  from seed_pass_unknown[OF l v, of "initial_count doctors" "[]"] assms(3) keys
  obtain d' where "seeded schedule resolved_schedule doctors = Inl (KeyErrorDoctor d')"
    and "d' \<notin> fst ` set doctors"
    by (auto simp: seeded_def)
  then show ?thesis
    by (auto simp: finalize_schedule_def filled_def bind_err_def)
qed

theorem finalize_unknown_resolved_doctor_witness:
  "(5::int) \<in> fst ` set [(5::int, [''A'', ''B''])]
   \<and> map_of [(5::int, ''C'')] 5 = Some ''C''
   \<and> ''C'' \<notin> fst ` set
        [(''A'', \<lparr>excluded_days = [], wanted_days = [5], num_shifts = None\<rparr>),
         (''B'', \<lparr>excluded_days = [], wanted_days = [5], num_shifts = None\<rparr>)]
   \<and> finalize_schedule [(5, [''A'', ''B''])] [(5, ''C'')]
        [(''A'', \<lparr>excluded_days = [], wanted_days = [5], num_shifts = None\<rparr>),
         (''B'', \<lparr>excluded_days = [], wanted_days = [5], num_shifts = None\<rparr>)]
        always_first
      = Inl (KeyErrorDoctor ''C'')"
proof -
  let ?r = "[(''A'', \<lparr>excluded_days = [], wanted_days = [5], num_shifts = None\<rparr>),
             (''B'', \<lparr>excluded_days = [], wanted_days = [5], num_shifts = None\<rparr>)]"
  have h1: "(5::int) \<in> fst ` set [(5::int, [''A'', ''B''])]" by simp
  have h2: "map_of [(5::int, ''C'')] 5 = Some ''C''" by simp
  have h3: "''C'' \<notin> fst ` set ?r" by simp
  have run: "finalize_schedule [(5, [''A'', ''B''])] [(5, ''C'')] ?r always_first
               = Inl (KeyErrorDoctor ''C'')"
    by (simp add: finalize_schedule_def filled_def seeded_def initial_count_def
        bind_err_def increment_def)
  from finalize_unknown_resolved_doctor[OF h1 h2 h3, of always_first]
  show ?thesis using h1 h2 h3 run by simp
qed

subsection \<open>Excluded days\<close>

text \<open>
  Claim C4: for every roster (a dictionary, so with distinct keys), month and year, no
  list of the demand map returned by \<open>generate_initial_schedule\<close> holds a doctor on a
  day that is among that doctor's excluded days, also when the day is among the wanted
  days as well.
\<close>

theorem demand_never_on_excluded_day:
  assumes "wf_dict doctors"
    and "generate_initial_schedule doctors month year = Inr schedule"
    and "map_of doctors doctor = Some details"
    and "day \<in> set (excluded_days details)"
    and "(day, l) \<in> set schedule"
  shows "doctor \<notin> set l"
proof -
  from assms(2) obtain num_days where
    run: "assign_doctors doctors num_days (map (\<lambda>day. (day, [])) [1..num_days]) = Inr schedule"
    by (auto simp: generate_initial_schedule_def bind_err_def split: sum.splits)
  have all: "\<forall>(doctor, details) \<in> set doctors. map_of doctors doctor = Some details"
    using assms(1) by (auto simp: wf_dict_def)
  have start: "respects_excluded doctors (map (\<lambda>day. (day, [])) [1..num_days])"
    by (auto simp: respects_excluded_def)
  from assign_doctors_excluded[OF run all start] assms(3-5)
  show ?thesis by (fastforce simp: respects_excluded_def)
qed

theorem demand_never_on_excluded_day_witness:
  "wf_dict [(''A'', \<lparr>excluded_days = [2], wanted_days = [1, 2, 40], num_shifts = Some 1\<rparr>)]
   \<and> generate_initial_schedule [(''A'', \<lparr>excluded_days = [2], wanted_days = [1, 2, 40], num_shifts = Some 1\<rparr>)] 2 2025
      = Inr
       [(1, [''A'']), (2, []), (3, []), (4, []), (5, []), (6, []), (7, []), (8, []),
        (9, []), (10, []), (11, []), (12, []), (13, []), (14, []), (15, []), (16, []),
        (17, []), (18, []), (19, []), (20, []), (21, []), (22, []), (23, []), (24, []),
        (25, []), (26, []), (27, []), (28, [])]
   \<and> map_of [(''A'', \<lparr>excluded_days = [2], wanted_days = [1, 2, 40], num_shifts = Some 1\<rparr>)] ''A''
      = Some \<lparr>excluded_days = [2], wanted_days = [1, 2, 40], num_shifts = Some 1\<rparr>
   \<and> (2::int) \<in> set (excluded_days \<lparr>excluded_days = [2], wanted_days = [1, 2, 40], num_shifts = Some 1\<rparr>)
   \<and> (2::int, []) \<in> set
       [(1, [''A'']), (2, []), (3, []), (4, []), (5, []), (6, []), (7, []), (8, []),
        (9, []), (10, []), (11, []), (12, []), (13, []), (14, []), (15, []), (16, []),
        (17, []), (18, []), (19, []), (20, []), (21, []), (22, []), (23, []), (24, []),
        (25, []), (26, []), (27, []), (28, [])]
   \<and> ''A'' \<notin> set ([] :: string list)"
proof -
  let ?r = "[(''A'', \<lparr>excluded_days = [2], wanted_days = [1, 2, 40], num_shifts = Some 1\<rparr>)]"
  let ?d = "\<lparr>excluded_days = [2], wanted_days = [1, 2, 40], num_shifts = Some 1\<rparr>"
  let ?s = "[(1, [''A'']), (2, []), (3, []), (4, []), (5, []), (6, []), (7, []), (8, []),
        (9, []), (10, []), (11, []), (12, []), (13, []), (14, []), (15, []), (16, []),
        (17, []), (18, []), (19, []), (20, []), (21, []), (22, []), (23, []), (24, []),
        (25, []), (26, []), (27, []), (28, [])]"
  have h1: "wf_dict ?r" by (simp add: wf_dict_def)
  have h2: "generate_initial_schedule ?r 2 2025 = Inr ?s"
    by (simp add: generate_initial_schedule_def month_end_day_def days_in_month_def
        is_leap_def bind_err_def validate_days_def append_doctor_def upto.simps)
  have h3: "map_of ?r ''A'' = Some ?d" by simp
  have h4: "(2::int) \<in> set (excluded_days ?d)" by simp
  have h5: "(2::int, []) \<in> set ?s" by simp
  from demand_never_on_excluded_day[OF h1 h2 h3 h4 h5]
  show ?thesis using h1 h2 h3 h4 h5 by simp
qed

subsection \<open>The two-doctor example\<close>

text \<open>
  Claim C6: doctors A and B both want day 5 and have no limit. In a month of at least
  five days \<open>identify_conflicts\<close> reports exactly day 5 with the candidates A and B,
  and with the resolution map \<open>{5: B}\<close> \<open>finalize_schedule\<close> returns a schedule
  that gives day 5 to B, for every random source.
\<close>

theorem resolved_day_5_goes_to_B:
  assumes "5 \<le> n"
  shows "identify_conflicts (demand_day_5 n) = [(5, [''A'', ''B''])]
       \<and> (\<exists>fs. finalize_schedule (demand_day_5 n) [(5, ''B'')] doctors_A_B rnd = Inr fs
               \<and> map_of fs 5 = Some (Some ''B''))"
proof -
  let ?s = "demand_day_5 n" and ?r = "[(5::int, ''B'')]"
  have wf: "wf_dict ?s" by (rule demand_day_5_wf)
  have cov: "covers_days ?s" using assms by (intro demand_day_5_covers) simp
  have known: "\<forall>(day, l) \<in> set ?s. \<forall>d. seed_value ?r day l = Some d \<longrightarrow>
      d \<in> fst ` set doctors_A_B"
    by (auto simp: demand_day_5_def seed_value_def doctors_A_B_def split: if_splits)
  from finalize_total[OF wf cov known] obtain fs where
    fin: "finalize_schedule ?s ?r doctors_A_B rnd = Inr fs" by blast
  from finalize_stages[OF fin] obtain fs0 cnt0 where
    seed: "seeded ?s ?r doctors_A_B = Inr (fs0, cnt0)" by blast
  have day5: "map_of fs0 5 = Some (Some ''B'')"
    using assms by (simp add: seeded_lookup[OF seed wf] demand_day_5_lookup seed_value_def)
  have day4: "map_of fs0 (5 - 1) \<noteq> Some (Some ''B'')"
    using assms by (simp add: seeded_lookup[OF seed wf] demand_day_5_lookup seed_value_def)
  from finalize_keeps_seed[OF wf cov seed fin day5 day4]
  have "map_of fs 5 = Some (Some ''B'')" .
  with fin demand_day_5_conflicts[OF assms] show ?thesis by blast
qed

theorem resolved_day_5_goes_to_B_witness:
  "(5::int) \<le> 5
   \<and> identify_conflicts (demand_day_5 5) = [(5, [''A'', ''B''])]
   \<and> finalize_schedule (demand_day_5 5) [(5, ''B'')] doctors_A_B always_first
      = Inr [(1, Some ''A''), (2, Some ''B''), (3, Some ''A''), (4, None), (5, Some ''B'')]
   \<and> map_of [(1::int, Some ''A''), (2, Some ''B''), (3, Some ''A''), (4, None),
              (5, Some ''B'')] 5 = Some (Some ''B'')"
proof -
  have run: "finalize_schedule (demand_day_5 5) [(5, ''B'')] doctors_A_B always_first
      = Inr [(1, Some ''A''), (2, Some ''B''), (3, Some ''A''), (4, None), (5, Some ''B'')]"
    by code_simp
  from resolved_day_5_goes_to_B[of 5 always_first]
  show ?thesis using run by simp
qed

subsection \<open>Conflicts\<close>

text \<open>
  Claim C8: for a demand map in the store, \<open>identify_conflicts\<close> returns a new
  dictionary that holds exactly the entries whose candidate list is longer than one,
  each day with the very list object of the demand map; it changes no existing object,
  so the demand map reads as before; and a second call on the same demand map returns
  a dictionary with the same content.
\<close>

theorem identify_conflicts_st_spec:
  assumes "read_demand h schedule = Inr s"
  shows "\<exists>items conflicts h' h''.
           get_demand h schedule = Inr items
         \<and> conflicts = filter (\<lambda>(day, r). case get_names h r of
                                   Inr l \<Rightarrow> 1 < length l | Inl e \<Rightarrow> False) items
         \<and> identify_conflicts_st schedule h = (Inr (length h), h')
         \<and> h' = h @ [DemandDict conflicts]
         \<and> read_demand h' (length h) = Inr (identify_conflicts s)
         \<and> set (identify_conflicts s) = {(day, l). (day, l) \<in> set s \<and> 1 < length l}
         \<and> read_demand h' schedule = Inr s
         \<and> identify_conflicts_st schedule h' = (Inr (length h'), h'')
         \<and> take (length h') h'' = h'
         \<and> read_demand h'' (length h') = Inr (identify_conflicts s)"
proof -
  from identify_conflicts_st_run[OF assms] obtain items conflicts where
    1: "get_demand h schedule = Inr items"
       "conflicts = filter (\<lambda>(day, r). case get_names h r of
                                   Inr l \<Rightarrow> 1 < length l | Inl e \<Rightarrow> False) items"
       "identify_conflicts_st schedule h = (Inr (length h), h @ [DemandDict conflicts])"
       "read_demand (h @ [DemandDict conflicts]) (length h) = Inr (identify_conflicts s)"
       "read_demand (h @ [DemandDict conflicts]) schedule = Inr s"
    by blast
  let ?h' = "h @ [DemandDict conflicts]"
  from identify_conflicts_st_run[OF 1(5)] obtain conflicts' where
    2: "identify_conflicts_st schedule ?h' = (Inr (length ?h'), ?h' @ [DemandDict conflicts'])"
       "read_demand (?h' @ [DemandDict conflicts']) (length ?h') = Inr (identify_conflicts s)"
    by blast
  have 3: "set (identify_conflicts s) = {(day, l). (day, l) \<in> set s \<and> 1 < length l}"
    by (auto simp: identify_conflicts_def)
  have 4: "take (length ?h') (?h' @ [DemandDict conflicts']) = ?h'" by simp
  show ?thesis using 1 2 3 4 by blast
qed

theorem identify_conflicts_st_spec_witness:
  "read_demand example_store 3 = Inr [(1, [''A'']), (2, [''A'', ''B'']), (3, [])]
   \<and> identify_conflicts_st 3 example_store
      = (Inr 12, example_store @ [DemandDict [(2, 1)]])
   \<and> read_demand (example_store @ [DemandDict [(2, 1)]]) 12 = Inr [(2, [''A'', ''B''])]"
proof -
  from identify_conflicts_st_spec[OF example_read_demand]
  have "read_demand (snd (identify_conflicts_st 3 example_store)) (length example_store)
          = Inr (identify_conflicts [(1, [''A'']), (2, [''A'', ''B'']), (3, [])])"
    by auto
  then show ?thesis
    using example_read_demand example_conflicts_run example_length
    by (simp add: identify_conflicts_def)
qed

subsection \<open>The finalizer and its arguments\<close>

text \<open>
  Claim C9: a call of \<open>finalize_schedule\<close> changes no object that existed before the
  call, whether it returns or raises: the demand map, the resolution map and the roster
  with every doctor's lists read as before. The schedule it returns and its shift
  counter are new objects.
\<close>

theorem finalize_schedule_st_keeps_inputs:
  assumes "finalize_schedule_st schedule resolved_schedule doctors rnd h = (r, h')"
  shows "take (length h) h' = h
       \<and> (\<forall>s. read_demand h schedule = Inr s \<longrightarrow> read_demand h' schedule = Inr s)
       \<and> (\<forall>m. get_resolution h resolved_schedule = Inr m
              \<longrightarrow> get_resolution h' resolved_schedule = Inr m)
       \<and> (\<forall>ro. read_roster h doctors = Inr ro \<longrightarrow> read_roster h' doctors = Inr ro)
       \<and> (\<forall>fa. r = Inr fa \<longrightarrow> fa = length h
              \<and> (\<exists>fs. get_final h' fa = Inr fs)
              \<and> (\<exists>cnt. get_counter h' (Suc (length h)) = Inr cnt))"
proof -
  from finalize_schedule_st_frame[OF assms] have
    same: "take (length h) h' = h" and
    new: "\<forall>fa. r = Inr fa \<longrightarrow> fa = length h
              \<and> (\<exists>fs. get_final h' fa = Inr fs)
              \<and> (\<exists>cnt. get_counter h' (Suc (length h)) = Inr cnt)"
    by auto
  have h': "h' = h @ drop (length h) h'"
    using same by (metis append_take_drop_id)
  have "\<forall>s. read_demand h schedule = Inr s \<longrightarrow> read_demand h' schedule = Inr s"
    using read_demand_append[of h schedule _ "drop (length h) h'"] h' by simp
  moreover have "\<forall>m. get_resolution h resolved_schedule = Inr m
              \<longrightarrow> get_resolution h' resolved_schedule = Inr m"
    using get_resolution_append[of h resolved_schedule _ "drop (length h) h'"] h' by simp
  moreover have "\<forall>ro. read_roster h doctors = Inr ro \<longrightarrow> read_roster h' doctors = Inr ro"
    using read_roster_append[of h doctors _ "drop (length h) h'"] h' by simp
  ultimately show ?thesis using same new by blast
qed

theorem finalize_schedule_st_keeps_inputs_witness:
  "finalize_schedule_st 3 4 11 always_first example_store
     = (Inr 12, example_store @
          [FinalDict [(1, Some ''A''), (2, Some ''B''), (3, Some ''A'')],
           CounterDict [(''A'', 2), (''B'', 1)]])
   \<and> take (length example_store)
        (example_store @
          [FinalDict [(1, Some ''A''), (2, Some ''B''), (3, Some ''A'')],
           CounterDict [(''A'', 2), (''B'', 1)]]) = example_store
   \<and> read_demand
        (example_store @
          [FinalDict [(1, Some ''A''), (2, Some ''B''), (3, Some ''A'')],
           CounterDict [(''A'', 2), (''B'', 1)]]) 3
      = Inr [(1, [''A'']), (2, [''A'', ''B'']), (3, [])]"
  using finalize_schedule_st_keeps_inputs[OF example_finalize_run]
    example_finalize_run example_read_demand
  by auto

end
